theory Spec2Isabelle
  imports Main "HOL-Library.Word" "HOL-Library.Code_Target_Nat"
begin

unbundle bit_operations_syntax

section \<open>Data model\<close>

text \<open>
  Machine integers are words of the width the source declares. A \<open>std::string\<close> is
  the list of its bytes; \<open>size()\<close> is the length of the list (a \<open>size_t\<close>, modelled
  as \<open>nat\<close>).
\<close>

type_synonym u8 = "8 word"
type_synonym u16 = "16 word"
type_synonym u32 = "32 word"
type_synonym u64 = "64 word"
type_synonym bytes = "u8 list"

text \<open>hyperion.hpp: the hard limits, the status codes and the size of the entry header.\<close>

definition MAX_KEY :: nat where
  "MAX_KEY = 255"

definition MAX_VAL :: nat where
  "MAX_VAL = 65535"

datatype Status = OK | KeyTooLong | ValTooLong | ArenaFull | NotFound

definition sizeof_EntryHeader :: nat where
  "sizeof_EntryHeader = 8"

record EntryHeader =
  klen :: u16
  vlen :: u16
  hash_field :: u32

text \<open>arena.hpp: the error codes and the arena. The mapped region \<open>base_m\<close> is the
  list of its bytes (\<open>size_m\<close> of them, zero-filled by the operating system); an
  offset is an index into it.\<close>

datatype ArenaError = AE_None | OutOfSpace | MmapFailed | TooLarge

record Arena =
  base_m :: bytes
  size_m :: u32
  offset_m :: u32

text \<open>index.hpp: a slot and the index.\<close>

record Slot =
  hash_tag :: u8
  key_len :: u8
  val_len :: u16
  offset :: u32
  padding_ :: u64

record Index =
  slots_m :: "Slot list"
  capacity_m :: u32
  mask_m :: u32

text \<open>seqlock.hpp: the sequence counter and the protected value.\<close>

record 'a SeqLock =
  seq_m :: u64
  data_m :: 'a

record Hyperion =
  arena_m :: Arena
  index_m :: "Index SeqLock"

section \<open>Slot\<close>

definition OFF_EMPTY :: u32 where
  "OFF_EMPTY = 0xFFFFFFFF"

definition OFF_TOMB :: u32 where
  "OFF_TOMB = 0xFFFFFFFE"

definition UINT32_MAX :: u32 where
  "UINT32_MAX = 0xFFFFFFFF"

definition Slot_empty :: Slot where
  "Slot_empty = \<lparr>hash_tag = 0, key_len = 0, val_len = 0, offset = OFF_EMPTY, padding_ = 0\<rparr>"

definition is_empty :: "Slot \<Rightarrow> bool" where
  "is_empty s = (offset s = OFF_EMPTY)"

definition is_tombstone :: "Slot \<Rightarrow> bool" where
  "is_tombstone s = (offset s = OFF_TOMB)"

definition is_valid :: "Slot \<Rightarrow> bool" where
  "is_valid s = (offset s < OFF_TOMB)"

definition make_tombstone :: "Slot \<Rightarrow> Slot" where
  "make_tombstone s = s\<lparr>offset := OFF_TOMB, hash_tag := 0\<rparr>"

section \<open>Arena\<close>

definition Arena_default :: Arena where
  "Arena_default = \<lparr>base_m = [], size_m = 0, offset_m = 0\<rparr>"

text \<open>\<open>Arena::create\<close>. Whether the operating system grants the mapping is the
  parameter \<open>mmap_ok\<close>; a granted mapping is zero-filled.\<close>

definition Arena_create :: "bool \<Rightarrow> nat \<Rightarrow> ArenaError \<times> Arena" where
  "Arena_create mmap_ok size_bytes =
     (if size_bytes > 4294967295 then (TooLarge, Arena_default)
      else if \<not> mmap_ok then (MmapFailed, Arena_default)
      else (AE_None, \<lparr>base_m = replicate size_bytes 0, size_m = of_nat size_bytes, offset_m = 8\<rparr>))"

text \<open>\<open>Arena::alloc\<close>: the cursor is bumped by \<open>fetch_add\<close> before the bounds
  test, and the sum in the test is a 32-bit sum. The result is the error or the
  offset, with the arena after the bump.\<close>

definition alloc :: "u32 \<Rightarrow> Arena \<Rightarrow> (ArenaError + u32) \<times> Arena" where
  "alloc sz a =
     (let old_off = offset_m a;
          a' = a\<lparr>offset_m := old_off + sz\<rparr>
      in if old_off + sz > size_m a then (Inl OutOfSpace, a') else (Inr old_off, a'))"

text \<open>\<open>ptr_at\<close> followed by a read or a write of \<open>n\<close> bytes. The source checks no
  bounds; an access that leaves the mapped region is undefined behaviour, which the
  model reports as \<open>None\<close>.\<close>

definition mem_read :: "bytes \<Rightarrow> nat \<Rightarrow> nat \<Rightarrow> bytes option" where
  "mem_read m off n = (if off + n \<le> length m then Some (take n (drop off m)) else None)"

definition mem_write :: "bytes \<Rightarrow> nat \<Rightarrow> bytes \<Rightarrow> bytes option" where
  "mem_write m off bs =
     (if off + length bs \<le> length m then Some (take off m @ bs @ drop (off + length bs) m)
      else None)"

text \<open>The entry header in memory: \<open>klen\<close> at byte 0, \<open>vlen\<close> at byte 2, \<open>hash\<close> at
  byte 4, each little-endian.\<close>

definition le16 :: "u16 \<Rightarrow> bytes" where
  "le16 x = [ucast x, ucast (drop_bit 8 x)]"

definition le32 :: "u32 \<Rightarrow> bytes" where
  "le32 x = [ucast x, ucast (drop_bit 8 x), ucast (drop_bit 16 x), ucast (drop_bit 24 x)]"

definition rd16 :: "bytes \<Rightarrow> u16" where
  "rd16 bs = ucast (bs ! 0) OR push_bit 8 (ucast (bs ! 1))"

definition rd32 :: "bytes \<Rightarrow> u32" where
  "rd32 bs = ucast (bs ! 0) OR push_bit 8 (ucast (bs ! 1)) OR push_bit 16 (ucast (bs ! 2))
               OR push_bit 24 (ucast (bs ! 3))"

definition header_bytes :: "EntryHeader \<Rightarrow> bytes" where
  "header_bytes e = le16 (klen e) @ le16 (vlen e) @ le32 (hash_field e)"

definition read_header :: "bytes \<Rightarrow> nat \<Rightarrow> EntryHeader option" where
  "read_header m off =
     (case mem_read m off sizeof_EntryHeader of
        None \<Rightarrow> None
      | Some bs \<Rightarrow> Some \<lparr>klen = rd16 (take 2 bs), vlen = rd16 (take 2 (drop 2 bs)),
                          hash_field = rd32 (drop 4 bs)\<rparr>)"

section \<open>Index\<close>

definition Index_default :: Index where
  "Index_default = \<lparr>slots_m = [], capacity_m = 0, mask_m = 0\<rparr>"

definition next_pow2 :: "u32 \<Rightarrow> u32" where
  "next_pow2 v0 =
     (let v1 = v0 - 1;
          v2 = v1 OR drop_bit 1 v1;
          v3 = v2 OR drop_bit 2 v2;
          v4 = v3 OR drop_bit 4 v3;
          v5 = v4 OR drop_bit 8 v4;
          v6 = v5 OR drop_bit 16 v5
      in v6 + 1)"

definition init :: "u32 \<Rightarrow> Index" where
  "init slots =
     (let capacity = next_pow2 (max slots 8)
      in \<lparr>slots_m = replicate (unat capacity) Slot_empty, capacity_m = capacity,
          mask_m = capacity - 1\<rparr>)"

text \<open>\<open>Index::hash\<close>: the loop over the bytes, then the function.\<close>

fun hash_loop :: "bytes \<Rightarrow> u32 \<Rightarrow> u32" where
  "hash_loop [] h = h"
| "hash_loop (b # bs) h = hash_loop bs ((h XOR ucast b) * 16777619)"

definition hash :: "bytes \<Rightarrow> u32" where
  "hash data = hash_loop data 2166136261"

text \<open>\<open>Index::find\<close>. \<open>find_loop\<close> is the probe loop with \<open>n\<close> iterations left
  (\<open>capacity_m - i\<close>), the current index and \<open>first_tomb\<close>. The predicate \<open>eq\<close> reads the
  arena and so may leave it; reading a slot outside the slot array is undefined
  behaviour as well.\<close>

fun find_loop ::
  "Index \<Rightarrow> u8 \<Rightarrow> nat \<Rightarrow> (Slot \<Rightarrow> bool option) \<Rightarrow> nat \<Rightarrow> u32 \<Rightarrow> u32 \<Rightarrow> (u32 \<times> bool) option"
where
  "find_loop ix tag kl eq 0 idx first_tomb =
     Some (if first_tomb \<noteq> UINT32_MAX then first_tomb else idx, False)"
| "find_loop ix tag kl eq (Suc n) idx first_tomb =
     (if unat idx < length (slots_m ix) then
        (let s = slots_m ix ! unat idx in
         if is_empty s then
           Some (if first_tomb \<noteq> UINT32_MAX then first_tomb else idx, False)
         else if is_tombstone s then
           find_loop ix tag kl eq n ((idx + 1) AND mask_m ix)
             (if first_tomb = UINT32_MAX then idx else first_tomb)
         else if hash_tag s = tag \<and> unat (key_len s) = kl then
           (case eq s of
              None \<Rightarrow> None
            | Some True \<Rightarrow> Some (idx, True)
            | Some False \<Rightarrow> find_loop ix tag kl eq n ((idx + 1) AND mask_m ix) first_tomb)
         else find_loop ix tag kl eq n ((idx + 1) AND mask_m ix) first_tomb)
      else None)"

definition find :: "Index \<Rightarrow> u32 \<Rightarrow> nat \<Rightarrow> (Slot \<Rightarrow> bool option) \<Rightarrow> (u32 \<times> bool) option" where
  "find ix h kl eq =
     find_loop ix (ucast (drop_bit 24 h)) kl eq (unat (capacity_m ix)) (h AND mask_m ix) UINT32_MAX"

definition update :: "u32 \<Rightarrow> u8 \<Rightarrow> u8 \<Rightarrow> u16 \<Rightarrow> u32 \<Rightarrow> Index \<Rightarrow> Index option" where
  "update idx tag kl vl off ix =
     (if unat idx < length (slots_m ix) then
        Some (ix\<lparr>slots_m := (slots_m ix)[unat idx :=
          \<lparr>hash_tag = tag, key_len = kl, val_len = vl, offset = off, padding_ = 0\<rparr>]\<rparr>)
      else None)"

definition at :: "Index \<Rightarrow> u32 \<Rightarrow> Slot option" where
  "at ix idx = (if unat idx < length (slots_m ix) then Some (slots_m ix ! unat idx) else None)"

section \<open>SeqLock\<close>

definition SeqLock_default :: "Index SeqLock" where
  "SeqLock_default = \<lparr>seq_m = 0, data_m = Index_default\<rparr>"

text \<open>\<open>SeqLock::read\<close> in a single thread: nothing changes \<open>seq_m\<close> while the loop
  runs, so an odd counter spins forever (the value \<open>None\<close>).\<close>

partial_function (option) SeqLock_read :: "('a \<Rightarrow> 'b option) \<Rightarrow> 'a SeqLock \<Rightarrow> 'b option" where
  "SeqLock_read f l =
     (let v1 = seq_m l in
      if v1 AND 1 \<noteq> 0 then SeqLock_read f l
      else (case f (data_m l) of
              None \<Rightarrow> None
            | Some result \<Rightarrow> (let v2 = seq_m l in if v1 = v2 then Some result else SeqLock_read f l)))"

text \<open>\<open>SeqLock::write\<close>: the assertion on the previous counter, the mutation, the
  new even counter. The closure mutates the protected value in place and may assign
  variables it captured by reference; the model's closure returns both.\<close>

definition SeqLock_write :: "('a \<Rightarrow> ('r \<times> 'a) option) \<Rightarrow> 'a SeqLock \<Rightarrow> ('r \<times> 'a SeqLock) option" where
  "SeqLock_write f l =
     (let prev = seq_m l in
      if prev AND 1 \<noteq> 0 then None
      else (case f (data_m l) of
              None \<Rightarrow> None
            | Some (r, d) \<Rightarrow> Some (r, \<lparr>seq_m = prev + 2, data_m = d\<rparr>)))"

section \<open>Hyperion\<close>

definition Hyperion_default :: Hyperion where
  "Hyperion_default = \<lparr>arena_m = Arena_default, index_m = SeqLock_default\<rparr>"

definition create :: "bool \<Rightarrow> nat \<Rightarrow> u32 \<Rightarrow> ArenaError \<times> Hyperion" where
  "create mmap_ok bytes slots =
     (case Arena_create mmap_ok bytes of (ae, a) \<Rightarrow>
        if ae \<noteq> AE_None then (ae, Hyperion_default)
        else (ae, \<lparr>arena_m = a, index_m = \<lparr>seq_m = 0, data_m = init slots\<rparr>\<rparr>))"

text \<open>The key comparison that \<open>put\<close>, \<open>get\<close> and \<open>del\<close> hand to \<open>find\<close>.\<close>

definition eq :: "Arena \<Rightarrow> bytes \<Rightarrow> u32 \<Rightarrow> Slot \<Rightarrow> bool option" where
  "eq a key h s =
     (if \<not> is_valid s then Some False
      else (case read_header (base_m a) (unat (offset s)) of
              None \<Rightarrow> None
            | Some e \<Rightarrow>
                if hash_field e \<noteq> h \<or> unat (klen e) \<noteq> length key then Some False
                else (case mem_read (base_m a) (unat (offset s) + sizeof_EntryHeader) (length key) of
                        None \<Rightarrow> None
                      | Some kb \<Rightarrow> Some (kb = key))))"

definition put :: "bytes \<Rightarrow> bytes \<Rightarrow> Hyperion \<Rightarrow> (Status \<times> Hyperion) option" where
  "put key val db =
     (if length key > MAX_KEY then Some (KeyTooLong, db)
      else if length val > MAX_VAL then Some (ValTooLong, db)
      else
        (let h = hash key;
             tag = (ucast (drop_bit 24 h) :: u8);
             needed0 = (of_nat (sizeof_EntryHeader + length key + length val) :: u32);
             needed = (needed0 + 7) AND NOT 7
         in case alloc needed (arena_m db) of
              (Inl err, a1) \<Rightarrow> Some (ArenaFull, db\<lparr>arena_m := a1\<rparr>)
            | (Inr off, a1) \<Rightarrow>
                (case mem_write (base_m a1) (unat off)
                        (header_bytes \<lparr>klen = of_nat (length key), vlen = of_nat (length val),
                                        hash_field = h\<rparr> @ key @ val) of
                   None \<Rightarrow> None
                 | Some m \<Rightarrow>
                     (let a2 = a1\<lparr>base_m := m\<rparr> in
                      case SeqLock_write (\<lambda>idx.
                             case find idx h (length key) (eq a2 key h) of
                               None \<Rightarrow> None
                             | Some (slot_idx, exists) \<Rightarrow>
                                 (case update slot_idx tag (of_nat (length key))
                                         (of_nat (length val)) off idx of
                                    None \<Rightarrow> None
                                  | Some idx' \<Rightarrow> Some ((), idx')))
                           (index_m db) of
                        None \<Rightarrow> None
                      | Some (u, l) \<Rightarrow> Some (OK, \<lparr>arena_m = a2, index_m = l\<rparr>)))))"

definition get :: "bytes \<Rightarrow> bytes \<Rightarrow> Hyperion \<Rightarrow> (Status \<times> bytes) option" where
  "get key out_val db =
     (let h = hash key in
      case SeqLock_read (\<lambda>idx.
             case find idx h (length key) (eq (arena_m db) key h) of
               None \<Rightarrow> None
             | Some (slot_idx, exists) \<Rightarrow>
                 if exists then
                   (case at idx slot_idx of
                      None \<Rightarrow> None
                    | Some s \<Rightarrow>
                        (case read_header (base_m (arena_m db)) (unat (offset s)) of
                           None \<Rightarrow> None
                         | Some e \<Rightarrow>
                             (case mem_read (base_m (arena_m db))
                                     (unat (offset s) + sizeof_EntryHeader + unat (klen e))
                                     (unat (vlen e)) of
                                None \<Rightarrow> None
                              | Some v \<Rightarrow> Some (True, v))))
                 else Some (False, out_val))
           (index_m db) of
        None \<Rightarrow> None
      | Some (found, out) \<Rightarrow> Some (if found then OK else NotFound, out))"

definition del :: "bytes \<Rightarrow> Hyperion \<Rightarrow> (Status \<times> Hyperion) option" where
  "del key db =
     (let h = hash key in
      case SeqLock_write (\<lambda>idx.
             case find idx h (length key) (eq (arena_m db) key h) of
               None \<Rightarrow> None
             | Some (slot_idx, exists) \<Rightarrow>
                 if exists then
                   (case at idx slot_idx of
                      None \<Rightarrow> None
                    | Some s \<Rightarrow>
                        Some (True, idx\<lparr>slots_m := (slots_m idx)[unat slot_idx := make_tombstone s]\<rparr>))
                 else Some (False, idx))
           (index_m db) of
        None \<Rightarrow> None
      | Some (found, l) \<Rightarrow> Some (if found then OK else NotFound, db\<lparr>index_m := l\<rparr>))"

section \<open>Specification-level definitions\<close>

text \<open>32-bit FNV-1a as the specification words it, on natural numbers: start from
  the offset basis; for each byte, xor it in and multiply by the prime, keeping the low
  32 bits.\<close>

fun fnv1a_spec :: "nat list \<Rightarrow> nat \<Rightarrow> nat" where
  "fnv1a_spec [] h = h"
| "fnv1a_spec (b # bs) h = fnv1a_spec bs (((h XOR b) * 16777619) mod 2 ^ 32)"

text \<open>\<open>smeared K y x\<close>: bit \<open>i\<close> of \<open>y\<close> is set exactly when one of the \<open>K\<close> bits of
  \<open>x\<close> from \<open>i\<close> upwards is set. It describes the intermediate values of \<open>next_pow2\<close>.\<close>

definition smeared :: "nat \<Rightarrow> u32 \<Rightarrow> u32 \<Rightarrow> bool" where
  "smeared K y x = (\<forall>i. bit y i \<longleftrightarrow> (\<exists>d<K. bit x (i + d)))"

text \<open>Names for three terms of \<open>put\<close>: the rounded allocation size, the bytes of the
  entry record and the slot that is published.\<close>

definition needed_size :: "bytes \<Rightarrow> bytes \<Rightarrow> u32" where
  "needed_size key val = ((of_nat (sizeof_EntryHeader + length key + length val) :: u32) + 7) AND NOT 7"

definition entry_bytes :: "bytes \<Rightarrow> bytes \<Rightarrow> bytes" where
  "entry_bytes key val =
     header_bytes \<lparr>klen = of_nat (length key), vlen = of_nat (length val), hash_field = hash key\<rparr>
       @ key @ val"

definition new_slot :: "bytes \<Rightarrow> bytes \<Rightarrow> u32 \<Rightarrow> Slot" where
  "new_slot key val off =
     \<lparr>hash_tag = ucast (drop_bit 24 (hash key)), key_len = of_nat (length key),
      val_len = of_nat (length val), offset = off, padding_ = 0\<rparr>"

text \<open>The lookup that \<open>get\<close> and \<open>del\<close> run on a store.\<close>

definition key_find :: "Hyperion \<Rightarrow> bytes \<Rightarrow> (u32 \<times> bool) option" where
  "key_find db key = find (data_m (index_m db)) (hash key) (length key) (eq (arena_m db) key (hash key))"


text \<open>What one iteration of the probe loop does at a slot: stop at an empty slot, stop at
  a match, go on (tombstone or another key), or leave the arena inside \<open>eq\<close>.\<close>

datatype probe_step = Stop_empty | Stop_match | Continue | Fault

definition step :: "Index \<Rightarrow> u8 \<Rightarrow> nat \<Rightarrow> (Slot \<Rightarrow> bool option) \<Rightarrow> u32 \<Rightarrow> probe_step" where
  "step ix tag kl e w =
     (let s = slots_m ix ! unat w in
      if is_empty s then Stop_empty
      else if is_tombstone s then Continue
      else if hash_tag s = tag \<and> unat (key_len s) = kl then
        (case e s of None \<Rightarrow> Fault | Some True \<Rightarrow> Stop_match | Some False \<Rightarrow> Continue)
      else Continue)"

text \<open>The indices the loop visits in \<open>n\<close> iterations from \<open>idx\<close>, and the index it
  holds afterwards.\<close>

fun probe :: "Index \<Rightarrow> nat \<Rightarrow> u32 \<Rightarrow> u32 list" where
  "probe ix 0 idx = []"
| "probe ix (Suc n) idx = idx # probe ix n ((idx + 1) AND mask_m ix)"

fun probe_end :: "Index \<Rightarrow> nat \<Rightarrow> u32 \<Rightarrow> u32" where
  "probe_end ix 0 idx = idx"
| "probe_end ix (Suc n) idx = probe_end ix n ((idx + 1) AND mask_m ix)"


definition index_ok :: "Index \<Rightarrow> bool" where
  "index_ok ix \<longleftrightarrow>
     length (slots_m ix) = unat (capacity_m ix) \<and> mask_m ix = capacity_m ix - 1
     \<and> (\<exists>k\<in>{3..31}. capacity_m ix = 2 ^ k)"

text \<open>The part of the arena below which every record the index points to must lie: the
  cursor while it is inside the arena, the whole arena once the cursor has left it.\<close>

definition arena_limit :: "Arena \<Rightarrow> nat" where
  "arena_limit a = (if offset_m a \<le> size_m a then unat (offset_m a) else unat (size_m a))"

definition slot_ok :: "Arena \<Rightarrow> Slot \<Rightarrow> bool" where
  "slot_ok a s \<longleftrightarrow>
     (case read_header (base_m a) (unat (offset s)) of
        None \<Rightarrow> False
      | Some e \<Rightarrow> unat (offset s) + 8 + unat (klen e) + unat (vlen e) \<le> arena_limit a)"

text \<open>Slot \<open>j\<close> holds \<open>key\<close>: the probe loop for \<open>key\<close> would stop there with a match.\<close>

definition matches :: "Hyperion \<Rightarrow> bytes \<Rightarrow> u32 \<Rightarrow> bool" where
  "matches db key j \<longleftrightarrow>
     unat j < length (slots_m (data_m (index_m db)))
     \<and> step (data_m (index_m db)) (ucast (drop_bit 24 (hash key))) (length key)
           (eq (arena_m db) key (hash key)) j = Stop_match"

text \<open>The invariant of a store: an even sequence counter, a power-of-two index, an arena
  of the recorded size, every valid slot pointing to a whole record below the limit, and
  every key that some slot holds found by the lookup in that slot.\<close>

definition wf :: "Hyperion \<Rightarrow> bool" where
  "wf db \<longleftrightarrow>
     seq_m (index_m db) AND 1 = 0
     \<and> index_ok (data_m (index_m db))
     \<and> length (base_m (arena_m db)) = unat (size_m (arena_m db))
     \<and> (\<forall>s\<in>set (slots_m (data_m (index_m db))). is_valid s \<longrightarrow> slot_ok (arena_m db) s)
     \<and> (\<forall>key j. matches db key j \<longrightarrow> key_find db key = Some (j, True))"

text \<open>An arena of at most \<open>2 ^ 32 - 8\<close> bytes: rounding the size of a record that fits
  in it up to a multiple of 8 cannot wrap the 32-bit cursor.\<close>

definition arena_small :: "Hyperion \<Rightarrow> bool" where
  "arena_small db \<longleftrightarrow> unat (size_m (arena_m db)) \<le> 4294967288"

text \<open>The value bytes of the record a slot points to, read the way \<open>get\<close> reads them.\<close>

definition record_value :: "Arena \<Rightarrow> Slot \<Rightarrow> bytes option" where
  "record_value a s =
     (case read_header (base_m a) (unat (offset s)) of
        None \<Rightarrow> None
      | Some e \<Rightarrow> mem_read (base_m a) (unat (offset s) + sizeof_EntryHeader + unat (klen e))
                    (unat (vlen e)))"

datatype Op = Put bytes bytes | Del bytes

fun apply_op :: "Op \<Rightarrow> Hyperion \<Rightarrow> (Status \<times> Hyperion) option" where
  "apply_op (Put key val) db = put key val db"
| "apply_op (Del key) db = del key db"


text \<open>A sequence of operations in program order: the statuses they return and the store
  they leave, or \<open>None\<close> as soon as one of them is undefined.\<close>

fun run_ops :: "Op list \<Rightarrow> Hyperion \<Rightarrow> (Status list \<times> Hyperion) option" where
  "run_ops [] db = Some ([], db)"
| "run_ops (opn # ops) db =
     (case apply_op opn db of
        None \<Rightarrow> None
      | Some (st, db1) \<Rightarrow>
          (case run_ops ops db1 of
             None \<Rightarrow> None
           | Some (sts, db2) \<Rightarrow> Some (st # sts, db2)))"



text \<open>The stores of the examples: a fresh store of 64 bytes and 8 slots, and the same
  store after \<open>put("k", "v")\<close>.\<close>

definition ex_db0 :: Hyperion where
  "ex_db0 = snd (create True 64 8)"

definition ex_db1 :: Hyperion where
  "ex_db1 = snd (the (put [107] [118] ex_db0))"



section \<open>SeqLock in a single thread\<close>

lemma SeqLock_read_Some:
  assumes "SeqLock_read f l = Some r"
  shows "seq_m l AND 1 = 0 \<and> f (data_m l) = Some r"
  using assms
  by (rule SeqLock_read.raw_induct[rotated 1,
        where P="\<lambda>f l r. seq_m l AND 1 = 0 \<and> f (data_m l) = Some r"])
     (auto simp: Let_def split: if_splits option.splits)

text \<open>With an even counter the reader runs once; with an odd one it never returns.\<close>

lemma SeqLock_read_unfold [code]:
  "SeqLock_read f l = (if seq_m l AND 1 \<noteq> 0 then None else f (data_m l))"
proof (cases "seq_m l AND 1 = 0")
  case True
  then show ?thesis
    by (subst SeqLock_read.simps) (simp add: Let_def split: option.splits)
next
  case False
  then have "SeqLock_read f l = None"
    using SeqLock_read_Some[of f l] by (cases "SeqLock_read f l") auto
  with False show ?thesis by simp
qed

lemma SeqLock_read_even: "seq_m l AND 1 = 0 \<Longrightarrow> SeqLock_read f l = f (data_m l)"
  by (simp add: SeqLock_read_unfold)

section \<open>The hash function\<close>

lemma unat_ucast_u8_u32: "unat (ucast (b :: u8) :: u32) = unat b"
proof -
  have "unat b < 2 ^ 32"
    by (rule order_less_le_trans[OF unsigned_less]) simp
  then show ?thesis
    by (simp add: unsigned_ucast_eq take_bit_nat_eq_self_iff)
qed

lemma hash_loop_spec: "unat (hash_loop bs h) = fnv1a_spec (map unat bs) (unat h)"
proof (induction bs arbitrary: h)
  case Nil
  show ?case by simp
next
  case (Cons b bs)
  have "unat ((h XOR ucast b) * 16777619) = ((unat h XOR unat b) * 16777619) mod 2 ^ 32"
    by (simp add: unat_word_ariths unsigned_xor_eq unat_ucast_u8_u32)
  then show ?case using Cons by simp
qed

section \<open>Rounding the capacity\<close>

lemma smeared_1: "smeared 1 x x"
  by (simp add: smeared_def)

lemma smeared_step:
  assumes "smeared K y x"
  shows "smeared (2 * K) (y OR drop_bit K y) x"
  unfolding smeared_def
proof
  fix i
  have "bit (y OR drop_bit K y) i \<longleftrightarrow> bit y i \<or> bit y (K + i)"
    by (simp add: bit_or_iff bit_drop_bit_eq)
  also have "\<dots> \<longleftrightarrow> (\<exists>d<K. bit x (i + d)) \<or> (\<exists>d<K. bit x (K + i + d))"
    using assms by (simp add: smeared_def)
  also have "\<dots> \<longleftrightarrow> (\<exists>d<2 * K. bit x (i + d))"
  proof
    assume "(\<exists>d<K. bit x (i + d)) \<or> (\<exists>d<K. bit x (K + i + d))"
    then show "\<exists>d<2 * K. bit x (i + d)"
    proof
      assume "\<exists>d<K. bit x (i + d)"
      then obtain d where "d < K" "bit x (i + d)" by blast
      then show ?thesis by (intro exI[of _ d]) simp
    next
      assume "\<exists>d<K. bit x (K + i + d)"
      then obtain d where "d < K" "bit x (K + i + d)" by blast
      then show ?thesis by (intro exI[of _ "K + d"]) (simp add: ac_simps)
    qed
  next
    assume "\<exists>d<2 * K. bit x (i + d)"
    then obtain d where d: "d < 2 * K" "bit x (i + d)" by blast
    show "(\<exists>d<K. bit x (i + d)) \<or> (\<exists>d<K. bit x (K + i + d))"
    proof (cases "d < K")
      case True
      with d show ?thesis by blast
    next
      case False
      with d have "d - K < K" "bit x (K + i + (d - K))" by (simp_all add: ac_simps)
      then show ?thesis by blast
    qed
  qed
  finally show "bit (y OR drop_bit K y) i \<longleftrightarrow> (\<exists>d<2 * K. bit x (i + d))" .
qed

lemma next_pow2_smeared:
  "\<exists>y. smeared 32 y (v - 1) \<and> next_pow2 v = y + 1"
proof -
  define v1 where "v1 = v - 1"
  define v2 where "v2 = v1 OR drop_bit 1 v1"
  define v3 where "v3 = v2 OR drop_bit 2 v2"
  define v4 where "v4 = v3 OR drop_bit 4 v3"
  define v5 where "v5 = v4 OR drop_bit 8 v4"
  define v6 where "v6 = v5 OR drop_bit 16 v5"
  have "smeared 2 v2 v1" using smeared_step[OF smeared_1, of v1] by (simp add: v2_def)
  then have "smeared 4 v3 v1" using smeared_step[of 2 v2 v1] by (simp add: v3_def)
  then have "smeared 8 v4 v1" using smeared_step[of 4 v3 v1] by (simp add: v4_def)
  then have "smeared 16 v5 v1" using smeared_step[of 8 v4 v1] by (simp add: v5_def)
  then have "smeared 32 v6 v1" using smeared_step[of 16 v5 v1] by (simp add: v6_def)
  moreover have "next_pow2 v = v6 + 1"
    by (simp add: next_pow2_def Let_def v1_def v2_def v3_def v4_def v5_def v6_def)
  ultimately show ?thesis unfolding v1_def by blast
qed


lemma bit_word_nat: "bit (x :: 32 word) j \<longleftrightarrow> odd (unat x div 2 ^ j)"
proof -
  have "bit x j \<longleftrightarrow> bit (unat x) j" by (simp add: bit_unsigned_iff)
  then show ?thesis by (simp add: bit_iff_odd)
qed

lemma bit_above: fixes x :: "32 word" assumes "unat x < 2 ^ k" "k \<le> j" shows "\<not> bit x j"
proof -
  have "(2::nat) ^ k \<le> 2 ^ j" using assms(2) by simp
  then have "unat x < 2 ^ j" using assms(1) by (rule order_less_le_trans[rotated])
  then have "unat x div 2 ^ j = 0" by simp
  then show ?thesis by (simp add: bit_word_nat)
qed

lemma bit_top: fixes x :: "32 word" assumes "unat x < 2 ^ k" "2 ^ (k - 1) \<le> unat x" "0 < k" shows "bit x (k - 1)"
proof -
  obtain m where k: "k = Suc m" using assms(3) by (cases k) auto
  have "unat x div 2 ^ m < 2" using assms(1) k by (simp add: less_mult_imp_div_less)
  moreover have "unat x div 2 ^ m \<ge> 1" using assms(2) k
    by (simp add: Suc_le_eq div_greater_zero_iff)
  ultimately have "unat x div 2 ^ m = 1" by simp
  then show ?thesis by (simp add: bit_word_nat k)
qed

lemma smeared_32_mask:
  fixes x :: "32 word"
  assumes sm: "smeared 32 y x" and lt: "unat x < 2 ^ k" and k: "k \<le> 32"
    and ge: "0 < k \<Longrightarrow> 2 ^ (k - 1) \<le> unat x"
  shows "y = mask k"
proof (rule bit_eqI)
  fix i
  assume "possible_bit TYPE(32 word) i"
  then have i32: "i < 32" by simp
  have "bit y i \<longleftrightarrow> i < k"
  proof
    assume "bit y i"
    then obtain d where "bit x (i + d)" using sm by (auto simp: smeared_def)
    with bit_above[OF lt, of "i + d"] show "i < k" by (cases "k \<le> i + d") auto
  next
    assume ik: "i < k"
    then have "bit x (k - 1)" using bit_top[OF lt] ge by simp
    with ik have "k - 1 - i < 32" "bit x (i + (k - 1 - i))" using k by auto
    then show "bit y i" using sm unfolding smeared_def by blast
  qed
  then show "bit y i \<longleftrightarrow> bit (mask k :: 32 word) i"
    using i32 by (simp add: bit_mask_iff)
qed

lemma next_pow2_correct:
  assumes pos: "0 < unat v" and le: "unat v \<le> 2 ^ 31"
  shows "\<exists>k\<le>31. next_pow2 v = 2 ^ k \<and> unat v \<le> 2 ^ k \<and> (\<forall>m. unat v \<le> 2 ^ m \<longrightarrow> k \<le> m)"
proof -
  define x where "x = v - 1"
  have v0: "v \<noteq> 0" using pos by (auto simp: unat_eq_0)
  have ux: "unat x = unat v - 1" unfolding x_def using v0 by (simp add: unat_minus_one)
  define k where "k = (LEAST k. unat x < 2 ^ k)"
  have x31: "unat x < 2 ^ 31" using ux pos le by simp
  have lt: "unat x < 2 ^ k" unfolding k_def using x31 by (rule LeastI)
  have k31: "k \<le> 31" unfolding k_def using x31 by (rule Least_le)
  have ge: "2 ^ (k - 1) \<le> unat x" if "0 < k"
  proof (rule ccontr)
    assume "\<not> 2 ^ (k - 1) \<le> unat x"
    then have "unat x < 2 ^ (k - 1)" by simp
    then have "k \<le> k - 1" unfolding k_def by (rule Least_le)
    with that show False by simp
  qed
  obtain y where y: "smeared 32 y x" "next_pow2 v = y + 1"
    using next_pow2_smeared[of v] unfolding x_def by blast
  have "y = mask k" using y(1) lt _ ge by (rule smeared_32_mask) (use k31 in simp)
  then have np: "next_pow2 v = 2 ^ k" using y(2) by (simp add: mask_eq_exp_minus_1)
  have "unat v \<le> 2 ^ k" using lt ux pos by simp
  moreover have "k \<le> m" if "unat v \<le> 2 ^ m" for m
  proof -
    have "unat x < 2 ^ m" using that ux pos by simp
    then show ?thesis unfolding k_def by (rule Least_le)
  qed
  ultimately show ?thesis using np k31 by blast
qed


section \<open>The cases of put\<close>



lemma put_ArenaFull:
  assumes "length key \<le> 255" "length val \<le> 65535"
    and "offset_m (arena_m db) + needed_size key val > size_m (arena_m db)"
  shows "put key val db =
     Some (ArenaFull, db\<lparr>arena_m := (arena_m db)\<lparr>offset_m := offset_m (arena_m db) + needed_size key val\<rparr>\<rparr>)"
  using assms by (simp add: put_def MAX_KEY_def MAX_VAL_def alloc_def needed_size_def Let_def)

lemma put_ArenaFull_D:
  assumes "put key val db = Some (ArenaFull, db')"
  shows "offset_m (arena_m db) + needed_size key val > size_m (arena_m db)
    \<and> db' = db\<lparr>arena_m := (arena_m db)\<lparr>offset_m := offset_m (arena_m db) + needed_size key val\<rparr>\<rparr>"
  using assms
  by (auto simp: put_def MAX_KEY_def MAX_VAL_def alloc_def needed_size_def Let_def
           split: if_splits option.splits prod.splits)

lemma put_OK_D:
  assumes "put key val db = Some (OK, db')"
  shows "\<exists>m i fnd.
      length key \<le> 255 \<and> length val \<le> 65535
    \<and> \<not> offset_m (arena_m db) + needed_size key val > size_m (arena_m db)
    \<and> mem_write (base_m (arena_m db)) (unat (offset_m (arena_m db))) (entry_bytes key val) = Some m
    \<and> seq_m (index_m db) AND 1 = 0
    \<and> find (data_m (index_m db)) (hash key) (length key)
         (eq ((arena_m db)\<lparr>offset_m := offset_m (arena_m db) + needed_size key val, base_m := m\<rparr>) key (hash key))
         = Some (i, fnd)
    \<and> unat i < length (slots_m (data_m (index_m db)))
    \<and> db' = \<lparr>arena_m = (arena_m db)\<lparr>offset_m := offset_m (arena_m db) + needed_size key val, base_m := m\<rparr>,
             index_m = \<lparr>seq_m = seq_m (index_m db) + 2,
                        data_m = (data_m (index_m db))\<lparr>slots_m := (slots_m (data_m (index_m db)))
                                    [unat i := new_slot key val (offset_m (arena_m db))]\<rparr>\<rparr>\<rparr>"
  using assms
  by (auto simp: put_def MAX_KEY_def MAX_VAL_def alloc_def needed_size_def entry_bytes_def new_slot_def
                 Let_def SeqLock_write_def update_def
           split: if_splits option.splits prod.splits)


section \<open>The probe loop\<close>

lemma is_valid_iff: "is_valid s \<longleftrightarrow> \<not> is_empty s \<and> \<not> is_tombstone s"
proof -
  have "unat (offset s) < 2 ^ 32" by (rule order_less_le_trans[OF unsigned_less]) simp
  then show ?thesis
    unfolding is_valid_def is_empty_def is_tombstone_def OFF_TOMB_def OFF_EMPTY_def
    by (auto simp: word_less_nat_alt word_unat_eq_iff)
qed

lemma find_loop_Suc:
  "find_loop ix tag kl e (Suc n) idx ft =
     (if unat idx < length (slots_m ix) then
        (case step ix tag kl e idx of
           Stop_empty \<Rightarrow> Some (if ft \<noteq> UINT32_MAX then ft else idx, False)
         | Stop_match \<Rightarrow> Some (idx, True)
         | Fault \<Rightarrow> None
         | Continue \<Rightarrow> find_loop ix tag kl e n ((idx + 1) AND mask_m ix)
                        (if is_tombstone (slots_m ix ! unat idx) \<and> ft = UINT32_MAX then idx else ft))
      else None)"
  by (auto simp: step_def Let_def split: option.splits bool.splits)

lemma in_range_not_MAX:
  "length (slots_m ix) \<le> 4294967295 \<Longrightarrow> unat idx < length (slots_m ix) \<Longrightarrow> idx \<noteq> UINT32_MAX"
  by (auto simp: UINT32_MAX_def)

lemma find_loop_found:
  "find_loop ix tag kl e n idx ft = Some (r, True) \<Longrightarrow>
     r \<in> set (probe ix n idx) \<and> unat r < length (slots_m ix) \<and> step ix tag kl e r = Stop_match"
proof (induction n arbitrary: idx ft)
  case 0
  then show ?case by simp
next
  case (Suc n)
  from Suc.prems show ?case
    by (auto simp: find_loop_Suc simp del: find_loop.simps split: if_splits probe_step.splits
             dest!: Suc.IH)
qed

lemma find_loop_first_tomb:
  "find_loop ix tag kl e n idx ft = Some (r, False) \<Longrightarrow> ft \<noteq> UINT32_MAX \<Longrightarrow> r = ft"
proof (induction n arbitrary: idx ft)
  case 0
  then show ?case by simp
next
  case (Suc n)
  from Suc.prems show ?case
    by (auto simp: find_loop_Suc simp del: find_loop.simps split: if_splits probe_step.splits
             dest!: Suc.IH)
qed

lemma find_loop_not_found:
  assumes "find_loop ix tag kl e n idx UINT32_MAX = Some (r, False)"
    and "length (slots_m ix) \<le> 4294967295"
  shows "(r \<in> set (probe ix n idx) \<and> unat r < length (slots_m ix)
            \<and> (is_empty (slots_m ix ! unat r) \<or> is_tombstone (slots_m ix ! unat r)))
       \<or> (r = probe_end ix n idx
            \<and> (\<forall>w\<in>set (probe ix n idx). unat w < length (slots_m ix) \<and> is_valid (slots_m ix ! unat w)))"
  using assms
proof (induction n arbitrary: idx)
  case 0
  then show ?case by simp
next
  case (Suc n)
  from Suc.prems have rng: "unat idx < length (slots_m ix)"
    by (auto simp: find_loop_Suc simp del: find_loop.simps split: if_splits)
  then have nm: "idx \<noteq> UINT32_MAX" using Suc.prems(2) by (rule in_range_not_MAX[rotated])
  show ?case
  proof (cases "step ix tag kl e idx")
    case Stop_empty
    then have "is_empty (slots_m ix ! unat idx)"
      by (auto simp: step_def Let_def split: if_splits option.splits bool.splits)
    moreover have "r = idx" using Suc.prems(1) rng Stop_empty
      by (simp add: find_loop_Suc del: find_loop.simps)
    ultimately show ?thesis using rng by simp
  next
    case Stop_match
    then show ?thesis using Suc.prems(1) rng by (simp add: find_loop_Suc del: find_loop.simps)
  next
    case Fault
    then show ?thesis using Suc.prems(1) rng by (simp add: find_loop_Suc del: find_loop.simps)
  next
    case Continue
    show ?thesis
    proof (cases "is_tombstone (slots_m ix ! unat idx)")
      case True
      then have "find_loop ix tag kl e n ((idx + 1) AND mask_m ix) idx = Some (r, False)"
        using Suc.prems(1) rng Continue by (simp add: find_loop_Suc del: find_loop.simps)
      then have "r = idx" using nm by (rule find_loop_first_tomb)
      then show ?thesis using True rng by simp
    next
      case False
      then have rec: "find_loop ix tag kl e n ((idx + 1) AND mask_m ix) UINT32_MAX = Some (r, False)"
        using Suc.prems(1) rng Continue by (simp add: find_loop_Suc del: find_loop.simps)
      have "\<not> is_empty (slots_m ix ! unat idx)" using Continue
        by (auto simp: step_def Let_def split: if_splits)
      with False have v: "is_valid (slots_m ix ! unat idx)" by (simp add: is_valid_iff)
      from Suc.IH[OF rec Suc.prems(2)] show ?thesis using v rng by auto
    qed
  qed
qed

lemma find_loop_no_fault:
  assumes "\<forall>w\<in>set (probe ix n idx). unat w < length (slots_m ix) \<and> step ix tag kl e w \<noteq> Fault"
  shows "\<exists>r b. find_loop ix tag kl e n idx ft = Some (r, b)"
  using assms
proof (induction n arbitrary: idx ft)
  case 0
  show ?case by auto
next
  case (Suc n)
  then show ?case
    by (cases "step ix tag kl e idx") (auto simp: find_loop_Suc simp del: find_loop.simps)
qed

lemma find_loop_transfer:
  assumes "find_loop ix tag kl e n idx ft = Some (j, True)"
    and "length (slots_m ix') = length (slots_m ix)" and "mask_m ix' = mask_m ix"
    and "step ix' tag kl e' j = Stop_match"
    and "\<forall>w. unat w < length (slots_m ix) \<longrightarrow> step ix tag kl e w = Continue
            \<longrightarrow> step ix' tag kl e' w = Continue"
  shows "find_loop ix' tag kl e' n idx ft' = Some (j, True)"
  using assms(1)
proof (induction n arbitrary: idx ft ft')
  case 0
  then show ?case by simp
next
  case (Suc n)
  from Suc.prems have rng: "unat idx < length (slots_m ix)"
    by (auto simp: find_loop_Suc simp del: find_loop.simps split: if_splits)
  show ?case
  proof (cases "step ix tag kl e idx")
    case Stop_empty
    then show ?thesis using Suc.prems rng by (simp add: find_loop_Suc del: find_loop.simps)
  next
    case Stop_match
    then have "idx = j" using Suc.prems rng by (simp add: find_loop_Suc del: find_loop.simps)
    then show ?thesis using assms(2,4) rng by (simp add: find_loop_Suc del: find_loop.simps)
  next
    case Fault
    then show ?thesis using Suc.prems rng by (simp add: find_loop_Suc del: find_loop.simps)
  next
    case Continue
    then have c': "step ix' tag kl e' idx = Continue" using assms(5) rng by simp
    from Continue Suc.prems rng obtain ft1 where
      "find_loop ix tag kl e n ((idx + 1) AND mask_m ix) ft1 = Some (j, True)"
      by (simp add: find_loop_Suc del: find_loop.simps)
    from Suc.IH[OF this] show ?thesis using c' rng assms(2,3)
      by (simp add: find_loop_Suc del: find_loop.simps)
  qed
qed

lemma find_loop_claimed:
  assumes "find_loop ix tag kl e n idx UINT32_MAX = Some (r, False)"
    and "r \<in> set (probe ix n idx)"
    and "length (slots_m ix) \<le> 4294967295"
    and "length (slots_m ix') = length (slots_m ix)" and "mask_m ix' = mask_m ix"
    and "step ix' tag kl e' r = Stop_match"
    and "\<forall>w. unat w < length (slots_m ix) \<longrightarrow> w \<noteq> r \<longrightarrow> step ix tag kl e w = Continue
            \<longrightarrow> step ix' tag kl e' w = Continue"
  shows "find_loop ix' tag kl e' n idx ft' = Some (r, True)"
  using assms(1,2)
proof (induction n arbitrary: idx ft')
  case 0
  then show ?case by simp
next
  case (Suc n)
  from Suc.prems have rng: "unat idx < length (slots_m ix)"
    by (auto simp: find_loop_Suc simp del: find_loop.simps split: if_splits)
  then have nm: "idx \<noteq> UINT32_MAX" using assms(3) by (rule in_range_not_MAX[rotated])
  show ?case
  proof (cases "idx = r")
    case True
    then show ?thesis using assms(4,6) rng by (simp add: find_loop_Suc del: find_loop.simps)
  next
    case False
    then have rin: "r \<in> set (probe ix n ((idx + 1) AND mask_m ix))" using Suc.prems(2) by simp
    show ?thesis
    proof (cases "step ix tag kl e idx")
      case Stop_empty
      then show ?thesis using Suc.prems(1) rng False by (simp add: find_loop_Suc del: find_loop.simps)
    next
      case Stop_match
      then show ?thesis using Suc.prems(1) rng by (simp add: find_loop_Suc del: find_loop.simps)
    next
      case Fault
      then show ?thesis using Suc.prems(1) rng by (simp add: find_loop_Suc del: find_loop.simps)
    next
      case Continue
      then have c': "step ix' tag kl e' idx = Continue" using assms(7) rng False by simp
      show ?thesis
      proof (cases "is_tombstone (slots_m ix ! unat idx)")
        case True
        then have "find_loop ix tag kl e n ((idx + 1) AND mask_m ix) idx = Some (r, False)"
          using Suc.prems(1) rng Continue by (simp add: find_loop_Suc del: find_loop.simps)
        then have "r = idx" using nm by (rule find_loop_first_tomb)
        with False show ?thesis by simp
      next
        case nt: False
        then have "find_loop ix tag kl e n ((idx + 1) AND mask_m ix) UINT32_MAX = Some (r, False)"
          using Suc.prems(1) rng Continue by (simp add: find_loop_Suc del: find_loop.simps)
        from Suc.IH[OF this rin] show ?thesis using c' rng assms(4,5)
          by (simp add: find_loop_Suc del: find_loop.simps)
      qed
    qed
  qed
qed


section \<open>Index arithmetic\<close>

lemma unat_exp_u32: "k < 32 \<Longrightarrow> unat (2 ^ k :: u32) = 2 ^ k"
proof -
  assume k: "k < 32"
  have "(2 ^ k :: u32) = of_nat (2 ^ k)" by simp
  then have "unat (2 ^ k :: u32) = 2 ^ k mod 2 ^ 32" by (simp only: unat_of_nat) simp
  moreover have "(2::nat) ^ k < 2 ^ 32" using k by (intro power_strict_increasing) auto
  ultimately show ?thesis by simp
qed

lemma and_mask_add_exp: "(a + 2 ^ k) AND mask k = a AND mask k" for a :: u32
proof -
  have z: "(2 ^ k :: u32) AND mask k = 0"
    by (simp add: take_bit_eq_0_iff flip: take_bit_eq_mask)
  have "(a + 2 ^ k) AND mask k = (a + (2 ^ k AND mask k)) AND mask k"
    by (simp only: mask_eqs)
  then show ?thesis by (simp only: z add_0_right)
qed

lemma and_mask_small: "unat j < 2 ^ k \<Longrightarrow> j AND mask k = j" for j :: u32
  unfolding take_bit_eq_mask[symmetric]
  by (metis take_bit_nat_eq_self_iff unsigned_take_bit_eq word_eq_iff_unsigned)

lemma and_mask_less: "unat (j AND mask k) < 2 ^ k" for j :: u32
  by (simp add: unsigned_take_bit_eq flip: take_bit_eq_mask)

lemma index_okD:
  assumes "index_ok ix"
  obtains k where "3 \<le> k" "k \<le> 31" "capacity_m ix = 2 ^ k" "mask_m ix = mask k"
    "length (slots_m ix) = 2 ^ k" "unat (capacity_m ix) = 2 ^ k"
proof -
  from assms obtain k where k: "3 \<le> k" "k \<le> 31" "capacity_m ix = 2 ^ k"
    by (auto simp: index_ok_def)
  have "mask_m ix = mask k" using assms k by (simp add: index_ok_def mask_eq_exp_minus_1)
  moreover have "unat (capacity_m ix) = 2 ^ k" using k by (simp add: unat_exp_u32)
  moreover have "length (slots_m ix) = 2 ^ k" using assms calculation by (simp add: index_ok_def)
  ultimately show ?thesis using k that by blast
qed

lemma index_ok_length: "index_ok ix \<Longrightarrow> length (slots_m ix) \<le> 4294967295"
proof -
  assume "index_ok ix"
  then obtain k where k: "k \<le> 31" "length (slots_m ix) = 2 ^ k" by (rule index_okD)
  have "(2::nat) ^ k \<le> 2 ^ 31" using k(1) by (intro power_increasing) auto
  then show ?thesis using k(2) by simp
qed

lemma index_ok_masked: "index_ok ix \<Longrightarrow> unat (w AND mask_m ix) < length (slots_m ix)"
proof -
  assume "index_ok ix"
  then obtain k where k: "mask_m ix = mask k" "length (slots_m ix) = 2 ^ k" by (rule index_okD)
  show ?thesis using k by (simp add: and_mask_less)
qed

lemma probe_in_range:
  "index_ok ix \<Longrightarrow> unat idx < length (slots_m ix) \<Longrightarrow> w \<in> set (probe ix n idx)
    \<Longrightarrow> unat w < length (slots_m ix)"
proof (induction n arbitrary: idx)
  case 0
  then show ?case by simp
next
  case (Suc n)
  have "unat ((idx + 1) AND mask_m ix) < length (slots_m ix)"
    using Suc.prems(1) by (rule index_ok_masked)
  with Suc show ?case by auto
qed

lemma probe_member:
  assumes m: "mask_m ix = mask k"
  shows "idx AND mask k = idx \<Longrightarrow> d < n \<Longrightarrow> (idx + of_nat d) AND mask k \<in> set (probe ix n idx)"
proof (induction n arbitrary: idx d)
  case 0
  then show ?case by simp
next
  case (Suc n)
  show ?case
  proof (cases d)
    case 0
    then show ?thesis using Suc.prems by simp
  next
    case (Suc d')
    let ?i = "(idx + 1) AND mask k"
    have "?i AND mask k = ?i" by simp
    moreover have "d' < n" using Suc Suc.prems by simp
    ultimately have "(?i + of_nat d') AND mask k \<in> set (probe ix n ?i)" by (rule Suc.IH)
    moreover have "idx + of_nat d = (idx + 1) + of_nat d'" using Suc by simp
    then have "(?i + of_nat d') AND mask k = (idx + of_nat d) AND mask k"
      by (simp only: mask_eqs)
    ultimately show ?thesis using m by simp
  qed
qed

lemma probe_end_eq:
  assumes m: "mask_m ix = mask k"
  shows "idx AND mask k = idx \<Longrightarrow> probe_end ix n idx = (idx + of_nat n) AND mask k"
proof (induction n arbitrary: idx)
  case 0
  then show ?case by simp
next
  case (Suc n)
  let ?i = "(idx + 1) AND mask k"
  have "?i AND mask k = ?i" by simp
  then have "probe_end ix n ?i = (?i + of_nat n) AND mask k" by (rule Suc.IH)
  moreover have "idx + of_nat (Suc n) = (idx + 1) + of_nat n" by simp
  then have "(?i + of_nat n) AND mask k = (idx + of_nat (Suc n)) AND mask k"
    by (simp only: mask_eqs)
  ultimately show ?case using m by simp
qed

lemma probe_covers:
  assumes ok: "index_ok ix" and j: "unat j < length (slots_m ix)"
  shows "j \<in> set (probe ix (unat (capacity_m ix)) (h AND mask_m ix))"
proof -
  from ok obtain k where k: "mask_m ix = mask k" "length (slots_m ix) = 2 ^ k"
    "unat (capacity_m ix) = 2 ^ k" by (rule index_okD)
  let ?idx = "h AND mask k"
  let ?d = "unat ((j - ?idx) AND mask k)"
  have idx: "?idx AND mask k = ?idx" by simp
  have "?d < unat (capacity_m ix)" using k(3) by (simp add: and_mask_less)
  with idx have "(?idx + of_nat ?d) AND mask k \<in> set (probe ix (unat (capacity_m ix)) ?idx)"
    by (rule probe_member[OF k(1)])
  moreover have "of_nat ?d = (j - ?idx) AND mask k" by simp
  then have "(?idx + of_nat ?d) AND mask k = (?idx + ((j - ?idx) AND mask k)) AND mask k"
    by (rule arg_cong)
  moreover have "(?idx + ((j - ?idx) AND mask k)) AND mask k = (?idx + (j - ?idx)) AND mask k"
    by (rule mask_eqs(2))
  moreover have "?idx + (j - ?idx) = j" by simp
  moreover have "j AND mask k = j" using j k(2) by (simp add: and_mask_small)
  ultimately show ?thesis using k(1) by simp
qed

lemma probe_end_home:
  assumes ok: "index_ok ix"
  shows "probe_end ix (unat (capacity_m ix)) (h AND mask_m ix) = h AND mask_m ix"
proof -
  from ok obtain k where k: "mask_m ix = mask k" "unat (capacity_m ix) = 2 ^ k"
    by (rule index_okD)
  let ?idx = "h AND mask k"
  have idx: "?idx AND mask k = ?idx" by simp
  then have "probe_end ix (unat (capacity_m ix)) ?idx = (?idx + of_nat (2 ^ k)) AND mask k"
    using k(2) by (simp add: probe_end_eq[OF k(1)])
  also have "\<dots> = ?idx AND mask k" by (simp add: and_mask_add_exp)
  finally show ?thesis using k(1) by simp
qed

lemma probe_home_first:
  "index_ok ix \<Longrightarrow> h AND mask_m ix \<in> set (probe ix (unat (capacity_m ix)) (h AND mask_m ix))"
  by (rule probe_covers) (simp_all add: index_ok_masked)

section \<open>Arena memory\<close>

lemma rd16_le16: "rd16 (le16 x) = x"
  unfolding rd16_def le16_def
  by (rule bit_word_eqI) (auto simp: bit_simps)

lemma rd32_le32: "rd32 (le32 x) = x"
  unfolding rd32_def le32_def
proof (rule bit_word_eqI)
  fix n
  assume "n < LENGTH(32)"
  then consider "n < 8" | "8 \<le> n" "n < 16" | "16 \<le> n" "n < 24" | "24 \<le> n" "n < 32"
    by fastforce
  then show "bit (ucast ([ucast x, ucast (drop_bit 8 x), ucast (drop_bit 16 x), ucast (drop_bit 24 x)] ! 0 :: u8)
         OR push_bit 8 (ucast ([ucast x, ucast (drop_bit 8 x), ucast (drop_bit 16 x), ucast (drop_bit 24 x)] ! 1 :: u8))
         OR push_bit 16 (ucast ([ucast x, ucast (drop_bit 8 x), ucast (drop_bit 16 x), ucast (drop_bit 24 x)] ! 2 :: u8))
         OR push_bit 24 (ucast ([ucast x, ucast (drop_bit 8 x), ucast (drop_bit 16 x), ucast (drop_bit 24 x)] ! 3 :: u8)) :: u32) n
       = bit x n"
    by cases (auto simp: bit_simps)
qed

lemma length_header_bytes: "length (header_bytes e) = 8"
  by (simp add: header_bytes_def le16_def le32_def)

lemma length_entry_bytes: "length (entry_bytes key val) = 8 + length key + length val"
  by (simp add: entry_bytes_def length_header_bytes)

lemma mem_write_length: "mem_write m off bs = Some m' \<Longrightarrow> length m' = length m"
  by (auto simp: mem_write_def split: if_splits)

lemma mem_write_bounds: "mem_write m off bs = Some m' \<Longrightarrow> off + length bs \<le> length m"
  by (auto simp: mem_write_def split: if_splits)

lemma mem_read_below_write:
  assumes "mem_write m off bs = Some m'" and "o' + n \<le> off"
  shows "mem_read m' o' n = mem_read m o' n"
  using assms by (auto simp: mem_write_def mem_read_def drop_take min_def split: if_splits)

lemma mem_read_written:
  assumes "mem_write m off (xs @ ys @ zs) = Some m'"
  shows "mem_read m' (off + length xs) (length ys) = Some ys"
  using assms
  by (auto simp: mem_write_def mem_read_def drop_append split: if_splits)

lemma read_header_below_write:
  assumes "mem_write m off bs = Some m'" and "o' + 8 \<le> off"
  shows "read_header m' o' = read_header m o'"
  using assms by (simp add: read_header_def sizeof_EntryHeader_def mem_read_below_write)

lemma read_header_written:
  assumes "mem_write m off (entry_bytes key val) = Some m'"
  shows "read_header m' off
     = Some \<lparr>klen = of_nat (length key), vlen = of_nat (length val), hash_field = hash key\<rparr>"
proof -
  let ?e = "\<lparr>klen = of_nat (length key) :: u16, vlen = of_nat (length val) :: u16, hash_field = hash key\<rparr>"
  have "mem_write m off ([] @ header_bytes ?e @ (key @ val)) = Some m'"
    using assms by (simp add: entry_bytes_def)
  then have "mem_read m' (off + length ([] :: bytes)) (length (header_bytes ?e)) = Some (header_bytes ?e)"
    by (rule mem_read_written)
  then have "mem_read m' off 8 = Some (header_bytes ?e)" by (simp add: length_header_bytes)
  moreover have "rd16 (take 2 (header_bytes ?e)) = of_nat (length key)"
    using rd16_le16[of "of_nat (length key)"] by (simp add: header_bytes_def le16_def)
  moreover have "rd16 (take 2 (drop 2 (header_bytes ?e))) = of_nat (length val)"
    using rd16_le16[of "of_nat (length val)"] by (simp add: header_bytes_def le16_def)
  moreover have "rd32 (drop 4 (header_bytes ?e)) = hash key"
    using rd32_le32[of "hash key"] by (simp add: header_bytes_def le16_def)
  ultimately show ?thesis by (simp add: read_header_def sizeof_EntryHeader_def)
qed

lemma key_written:
  assumes "mem_write m off (entry_bytes key val) = Some m'"
  shows "mem_read m' (off + 8) (length key) = Some key"
proof -
  let ?e = "\<lparr>klen = of_nat (length key) :: u16, vlen = of_nat (length val) :: u16, hash_field = hash key\<rparr>"
  have "mem_write m off (header_bytes ?e @ key @ val) = Some m'"
    using assms by (simp add: entry_bytes_def)
  then have "mem_read m' (off + length (header_bytes ?e)) (length key) = Some key"
    by (rule mem_read_written)
  then show ?thesis by (simp add: length_header_bytes)
qed

lemma val_written:
  assumes "mem_write m off (entry_bytes key val) = Some m'"
  shows "mem_read m' (off + 8 + length key) (length val) = Some val"
proof -
  let ?e = "\<lparr>klen = of_nat (length key) :: u16, vlen = of_nat (length val) :: u16, hash_field = hash key\<rparr>"
  have "mem_write m off ((header_bytes ?e @ key) @ val @ []) = Some m'"
    using assms by (simp add: entry_bytes_def)
  then have "mem_read m' (off + length (header_bytes ?e @ key)) (length val) = Some val"
    by (rule mem_read_written)
  then show ?thesis by (simp add: length_header_bytes add.assoc)
qed

lemma unat_of_nat_u16: "n \<le> 65535 \<Longrightarrow> unat (of_nat n :: u16) = n"
  by (simp add: unat_of_nat)

lemma unat_of_nat_u8: "n \<le> 255 \<Longrightarrow> unat (of_nat n :: u8) = n"
  by (simp add: unat_of_nat)

lemma and_not_mask_shift: "x AND NOT (mask n) = push_bit n (drop_bit n x)" for x :: u32
  by (rule bit_word_eqI) (auto simp: bit_simps)

lemma unat_and_not_7: "unat (x AND NOT 7) = unat x div 8 * 8" for x :: u32
proof -
  have e: "(NOT 7 :: u32) = NOT (mask 3)" by (simp add: mask_eq_exp_minus_1)
  have "unat x div 8 * 8 \<le> unat x" by simp
  also have "unat x < 2 ^ 32" by (rule order_less_le_trans[OF unsigned_less]) simp
  finally have lt: "unat x div 8 * 8 < 2 ^ 32" .
  have "unat (push_bit 3 (drop_bit 3 x)) = unat x div 8 * 8"
    using lt
    by (simp add: push_bit_eq_mult drop_bit_eq_div unat_word_ariths unat_div)
  then show ?thesis by (simp only: e and_not_mask_shift)
qed

lemma needed_size_bounds:
  assumes "length key \<le> 255" "length val \<le> 65535"
  shows "8 + length key + length val \<le> unat (needed_size key val)"
    and "unat (needed_size key val) \<le> 8 + length key + length val + 7"
proof -
  let ?N = "8 + length key + length val"
  have N: "?N + 7 < 2 ^ 32" using assms by simp
  have "unat (of_nat ?N + 7 :: u32) = ?N + 7"
    using N by (simp add: unat_word_ariths unat_of_nat)
  then have u: "unat (needed_size key val) = (?N + 7) div 8 * 8"
    by (simp only: needed_size_def sizeof_EntryHeader_def unat_and_not_7)
  show "?N \<le> unat (needed_size key val)" unfolding u by presburger
  show "unat (needed_size key val) \<le> ?N + 7" unfolding u by presburger
qed

section \<open>The key comparison\<close>

lemma arena_limit_le_size: "arena_limit a \<le> unat (size_m a)"
  by (simp add: arena_limit_def word_le_nat_alt)

lemma eq_invalid: "\<not> is_valid s \<Longrightarrow> eq a key h s = Some False"
  by (simp add: eq_def)

lemma eq_below_write:
  assumes w: "mem_write (base_m a) off bs = Some m" and ok: "slot_ok a s"
    and lim: "arena_limit a \<le> off" and b: "base_m a' = m"
  shows "eq a' key h s = eq a key h s"
proof (cases "is_valid s")
  case False
  then show ?thesis by (simp add: eq_def)
next
  case True
  from ok obtain e where e: "read_header (base_m a) (unat (offset s)) = Some e"
    and le: "unat (offset s) + 8 + unat (klen e) + unat (vlen e) \<le> arena_limit a"
    by (auto simp: slot_ok_def split: option.splits)
  have h: "read_header m (unat (offset s)) = read_header (base_m a) (unat (offset s))"
    using w by (rule read_header_below_write) (use le lim in simp)
  have k: "mem_read m (unat (offset s) + 8) (length key)
             = mem_read (base_m a) (unat (offset s) + 8) (length key)"
    if "unat (klen e) = length key"
    using w by (rule mem_read_below_write) (use le lim that in simp)
  show ?thesis using True e h k b by (auto simp: eq_def sizeof_EntryHeader_def)
qed

lemma eq_no_fault:
  assumes ok: "slot_ok a s" and len: "length (base_m a) = unat (size_m a)"
  shows "eq a key h s \<noteq> None"
proof -
  from ok obtain e where e: "read_header (base_m a) (unat (offset s)) = Some e"
    and le: "unat (offset s) + 8 + unat (klen e) + unat (vlen e) \<le> arena_limit a"
    by (auto simp: slot_ok_def split: option.splits)
  have "unat (offset s) + 8 + length key \<le> length (base_m a)" if "unat (klen e) = length key"
    using le that len arena_limit_le_size[of a] by simp
  then show ?thesis using e
    by (auto simp: eq_def sizeof_EntryHeader_def mem_read_def)
qed


lemma eq_new_record:
  assumes w: "mem_write m0 (unat off) (entry_bytes k1 v1) = Some (base_m a)"
    and k1: "length k1 \<le> 255" and s: "offset s = off" and v: "is_valid s"
  shows "eq a key (hash key) s = Some (key = k1)"
proof -
  have h: "read_header (base_m a) (unat off)
     = Some \<lparr>klen = of_nat (length k1), vlen = of_nat (length v1), hash_field = hash k1\<rparr>"
    using w by (rule read_header_written)
  have kl: "unat (of_nat (length k1) :: u16) = length k1" using k1 by (simp add: unat_of_nat_u16)
  have kb: "mem_read (base_m a) (unat off + 8) (length k1) = Some k1"
    using w by (rule key_written)
  show ?thesis
  proof (cases "hash k1 = hash key \<and> length k1 = length key")
    case True
    then show ?thesis using h kl kb s v by (auto simp: eq_def sizeof_EntryHeader_def)
  next
    case False
    then have "key \<noteq> k1" by auto
    with False show ?thesis using h kl s v by (auto simp: eq_def sizeof_EntryHeader_def)
  qed
qed

section \<open>The lookup on a well-formed store\<close>

lemma find_loop_cong:
  assumes "\<forall>w. unat w < length (slots_m ix) \<longrightarrow> step ix tag kl e' w = step ix tag kl e w"
  shows "find_loop ix tag kl e' n idx ft = find_loop ix tag kl e n idx ft"
proof (induction n arbitrary: idx ft)
  case 0
  show ?case by simp
next
  case (Suc n)
  show ?case using assms
    by (simp add: find_loop_Suc Suc.IH del: find_loop.simps split: probe_step.splits)
qed

lemma wf_step_no_fault:
  assumes "wf db" and "unat w < length (slots_m (data_m (index_m db)))"
  shows "step (data_m (index_m db)) tag kl (eq (arena_m db) key h) w \<noteq> Fault"
proof -
  let ?s = "slots_m (data_m (index_m db)) ! unat w"
  have "?s \<in> set (slots_m (data_m (index_m db)))" using assms(2) by simp
  then have "is_valid ?s \<Longrightarrow> slot_ok (arena_m db) ?s" using assms(1) by (simp add: wf_def)
  moreover have "length (base_m (arena_m db)) = unat (size_m (arena_m db))"
    using assms(1) by (simp add: wf_def)
  ultimately have nf: "is_valid ?s \<Longrightarrow> eq (arena_m db) key h ?s \<noteq> None"
    by (simp add: eq_no_fault)
  show ?thesis
  proof (cases "is_valid ?s")
    case True
    with nf obtain b where "eq (arena_m db) key h ?s = Some b" by auto
    then show ?thesis by (simp add: step_def Let_def split: bool.splits)
  next
    case False
    then have "is_empty ?s \<or> is_tombstone ?s" by (simp add: is_valid_iff)
    then show ?thesis by (auto simp: step_def Let_def)
  qed
qed

lemma key_find_total:
  assumes "wf db"
  shows "\<exists>r b. key_find db key = Some (r, b) \<and> unat r < length (slots_m (data_m (index_m db)))"
proof -
  let ?ix = "data_m (index_m db)"
  let ?tag = "ucast (drop_bit 24 (hash key)) :: u8"
  let ?e = "eq (arena_m db) key (hash key)"
  let ?home = "hash key AND mask_m ?ix"
  let ?n = "unat (capacity_m ?ix)"
  have ok: "index_ok ?ix" using assms by (simp add: wf_def)
  have home: "unat ?home < length (slots_m ?ix)" using ok by (rule index_ok_masked)
  have rng: "unat w < length (slots_m ?ix)" if "w \<in> set (probe ?ix ?n ?home)" for w
    using ok home that by (rule probe_in_range)
  have "\<forall>w\<in>set (probe ?ix ?n ?home). unat w < length (slots_m ?ix)
           \<and> step ?ix ?tag (length key) ?e w \<noteq> Fault"
    using rng wf_step_no_fault[OF assms] by blast
  then obtain r b where rb: "find_loop ?ix ?tag (length key) ?e ?n ?home UINT32_MAX = Some (r, b)"
    using find_loop_no_fault by blast
  have "unat r < length (slots_m ?ix)"
  proof (cases b)
    case True
    with rb show ?thesis by (auto dest: find_loop_found)
  next
    case False
    with rb have rb': "find_loop ?ix ?tag (length key) ?e ?n ?home UINT32_MAX = Some (r, False)"
      by simp
    have "(r \<in> set (probe ?ix ?n ?home) \<and> unat r < length (slots_m ?ix)
            \<and> (is_empty (slots_m ?ix ! unat r) \<or> is_tombstone (slots_m ?ix ! unat r)))
       \<or> (r = probe_end ?ix ?n ?home
            \<and> (\<forall>w\<in>set (probe ?ix ?n ?home). unat w < length (slots_m ?ix) \<and> is_valid (slots_m ?ix ! unat w)))"
      using rb' index_ok_length[OF ok] by (rule find_loop_not_found)
    then show ?thesis using home probe_end_home[OF ok] by auto
  qed
  with rb show ?thesis by (auto simp: key_find_def find_def)
qed

lemma key_find_found:
  "key_find db key = Some (j, True) \<Longrightarrow> matches db key j"
  unfolding key_find_def find_def matches_def
  using find_loop_found by blast

lemma wf_found: "wf db \<Longrightarrow> matches db key j \<Longrightarrow> key_find db key = Some (j, True)"
  by (simp add: wf_def)



lemma matches_valid: "matches db k j \<Longrightarrow> is_valid (slots_m (data_m (index_m db)) ! unat j)"
  unfolding matches_def step_def Let_def
  by (auto simp: is_valid_iff split: if_splits option.splits bool.splits)

section \<open>The cases of get and del\<close>

lemma wf_seq: "wf db \<Longrightarrow> seq_m (index_m db) AND 1 = 0"
  by (simp add: wf_def)

lemma wf_index: "wf db \<Longrightarrow> index_ok (data_m (index_m db))"
  by (simp add: wf_def)

lemma wf_length: "wf db \<Longrightarrow> length (base_m (arena_m db)) = unat (size_m (arena_m db))"
  by (simp add: wf_def)

lemma wf_slot_ok:
  "wf db \<Longrightarrow> unat j < length (slots_m (data_m (index_m db)))
    \<Longrightarrow> is_valid (slots_m (data_m (index_m db)) ! unat j)
    \<Longrightarrow> slot_ok (arena_m db) (slots_m (data_m (index_m db)) ! unat j)"
  by (simp add: wf_def)

lemma get_unfold:
  "get key out_val db =
     (if seq_m (index_m db) AND 1 \<noteq> 0 then None
      else case key_find db key of
             None \<Rightarrow> None
           | Some (i, fnd) \<Rightarrow>
               if fnd then
                 (case at (data_m (index_m db)) i of
                    None \<Rightarrow> None
                  | Some s \<Rightarrow> map_option (Pair OK) (record_value (arena_m db) s))
               else Some (NotFound, out_val))"
  by (auto simp: get_def key_find_def record_value_def SeqLock_read_unfold Let_def
           split: option.splits prod.splits)

lemma del_unfold:
  "del key db =
     (if seq_m (index_m db) AND 1 \<noteq> 0 then None
      else case key_find db key of
             None \<Rightarrow> None
           | Some (i, fnd) \<Rightarrow>
               if fnd then
                 (if unat i < length (slots_m (data_m (index_m db))) then
                    Some (OK, db\<lparr>index_m := \<lparr>seq_m = seq_m (index_m db) + 2,
                       data_m = (data_m (index_m db))\<lparr>slots_m := (slots_m (data_m (index_m db)))
                         [unat i := make_tombstone (slots_m (data_m (index_m db)) ! unat i)]\<rparr>\<rparr>\<rparr>)
                  else None)
               else Some (NotFound, db\<lparr>index_m := \<lparr>seq_m = seq_m (index_m db) + 2,
                                                     data_m = data_m (index_m db)\<rparr>\<rparr>))"
  by (auto simp: del_def key_find_def SeqLock_write_def at_def Let_def
           split: option.splits prod.splits)

lemma record_value_ok:
  assumes "slot_ok a s" and "length (base_m a) = unat (size_m a)"
  shows "\<exists>v. record_value a s = Some v"
proof -
  from assms(1) obtain e where e: "read_header (base_m a) (unat (offset s)) = Some e"
    and le: "unat (offset s) + 8 + unat (klen e) + unat (vlen e) \<le> arena_limit a"
    by (auto simp: slot_ok_def split: option.splits)
  have "unat (offset s) + 8 + unat (klen e) + unat (vlen e) \<le> length (base_m a)"
    using le assms(2) arena_limit_le_size[of a] by simp
  then show ?thesis using e
    by (simp add: record_value_def sizeof_EntryHeader_def mem_read_def)
qed

lemma get_not_found:
  "wf db \<Longrightarrow> key_find db key = Some (r, False) \<Longrightarrow> get key out_val db = Some (NotFound, out_val)"
  by (simp add: get_unfold wf_seq)

lemma get_found:
  assumes "wf db" and "key_find db key = Some (j, True)"
  shows "\<exists>v. record_value (arena_m db) (slots_m (data_m (index_m db)) ! unat j) = Some v
             \<and> get key out_val db = Some (OK, v)"
proof -
  let ?s = "slots_m (data_m (index_m db)) ! unat j"
  have m: "matches db key j" using assms(2) by (rule key_find_found)
  then have rng: "unat j < length (slots_m (data_m (index_m db)))" by (simp add: matches_def)
  have "is_valid ?s" using m by (rule matches_valid)
  with assms(1) rng have "slot_ok (arena_m db) ?s" by (rule wf_slot_ok)
  then obtain v where v: "record_value (arena_m db) ?s = Some v"
    using record_value_ok[OF _ wf_length[OF assms(1)]] by blast
  then show ?thesis using assms(2) rng wf_seq[OF assms(1)] by (simp add: get_unfold at_def)
qed

section \<open>What a successful put does\<close>

lemma seq_plus_2_even: "x AND 1 = 0 \<Longrightarrow> (x + 2) AND 1 = 0" for x :: u64
proof -
  have "(x + 2) AND 1 = x AND 1"
    by (rule bit_word_eqI) (auto simp: bit_and_iff bit_1_iff bit_0)
  then show "x AND 1 = 0 \<Longrightarrow> (x + 2) AND 1 = 0" by simp
qed

lemma step_eq_cong:
  "e' (slots_m ix ! unat w) = e (slots_m ix ! unat w) \<Longrightarrow> step ix tag kl e' w = step ix tag kl e w"
  by (simp add: step_def Let_def)

lemma arena_limit_inside: "offset_m a \<le> size_m a \<Longrightarrow> arena_limit a = unat (offset_m a)"
  by (simp add: arena_limit_def)

lemma eq_frame_wf:
  assumes wf: "wf db"
    and w: "mem_write (base_m (arena_m db)) (unat (offset_m (arena_m db))) bs = Some m"
    and ins: "offset_m (arena_m db) \<le> size_m (arena_m db)"
    and rng: "unat j < length (slots_m (data_m (index_m db)))"
    and b: "base_m a' = m"
  shows "eq a' k h (slots_m (data_m (index_m db)) ! unat j)
           = eq (arena_m db) k h (slots_m (data_m (index_m db)) ! unat j)"
proof (cases "is_valid (slots_m (data_m (index_m db)) ! unat j)")
  case True
  with wf rng have "slot_ok (arena_m db) (slots_m (data_m (index_m db)) ! unat j)"
    by (rule wf_slot_ok)
  with w show ?thesis
    by (rule eq_below_write) (simp_all add: arena_limit_inside[OF ins] b)
next
  case False
  then show ?thesis by (simp add: eq_invalid)
qed

lemma new_slot_valid:
  assumes "unat off + 8 \<le> unat (sz :: u32)"
  shows "is_valid (new_slot key val off)"
proof -
  have "unat sz < 2 ^ 32" by (rule order_less_le_trans[OF unsigned_less]) simp
  with assms have "unat off < 4294967294" by simp
  then show ?thesis by (simp add: is_valid_def new_slot_def OFF_TOMB_def word_less_nat_alt)
qed

lemma new_slot_step:
  assumes w: "mem_write m0 (unat off) (entry_bytes key val) = Some (base_m a')"
    and kl: "length key \<le> 255" and v: "is_valid (new_slot key val off)"
    and s: "slots_m ix' ! unat i = new_slot key val off"
  shows "step ix' (ucast (drop_bit 24 (hash k))) (length k) (eq a' k (hash k)) i
           = (if k = key then Stop_match else Continue)"
proof -
  have e: "eq a' k (hash k) (new_slot key val off) = Some (k = key)"
    using w kl _ v by (rule eq_new_record) (simp add: new_slot_def)
  have ne: "\<not> is_empty (new_slot key val off)" "\<not> is_tombstone (new_slot key val off)"
    using v by (simp_all add: is_valid_iff)
  have "unat (key_len (new_slot key val off)) = length key"
    using kl by (simp add: new_slot_def unat_of_nat_u8)
  moreover have "hash_tag (new_slot key val off) = ucast (drop_bit 24 (hash key))"
    by (simp add: new_slot_def)
  ultimately show ?thesis using e ne s by (auto simp: step_def Let_def)
qed

lemma put_OK_state:
  assumes wf: "wf db" and put: "put key val db = Some (OK, db')"
  obtains m i fnd where
    "length key \<le> 255" "length val \<le> 65535"
    "offset_m (arena_m db) + needed_size key val \<le> size_m (arena_m db)"
    "offset_m (arena_m db) \<le> size_m (arena_m db)"
    "mem_write (base_m (arena_m db)) (unat (offset_m (arena_m db))) (entry_bytes key val) = Some m"
    "key_find db key = Some (i, fnd)"
    "unat i < length (slots_m (data_m (index_m db)))"
    "base_m (arena_m db') = m" "size_m (arena_m db') = size_m (arena_m db)"
    "offset_m (arena_m db') = offset_m (arena_m db) + needed_size key val"
    "seq_m (index_m db') = seq_m (index_m db) + 2"
    "slots_m (data_m (index_m db')) = (slots_m (data_m (index_m db)))
        [unat i := new_slot key val (offset_m (arena_m db))]"
    "mask_m (data_m (index_m db')) = mask_m (data_m (index_m db))"
    "capacity_m (data_m (index_m db')) = capacity_m (data_m (index_m db))"
proof -
  let ?a = "arena_m db" and ?ix = "data_m (index_m db)"
  let ?a2 = "?a\<lparr>offset_m := offset_m ?a + needed_size key val, base_m := m\<rparr>"
  from put_OK_D[OF put] obtain m i fnd where d:
    "length key \<le> 255" "length val \<le> 65535"
    "\<not> offset_m ?a + needed_size key val > size_m ?a"
    "mem_write (base_m ?a) (unat (offset_m ?a)) (entry_bytes key val) = Some m"
    "find ?ix (hash key) (length key)
       (eq (?a\<lparr>offset_m := offset_m ?a + needed_size key val, base_m := m\<rparr>) key (hash key))
       = Some (i, fnd)"
    "unat i < length (slots_m ?ix)"
    "db' = \<lparr>arena_m = ?a\<lparr>offset_m := offset_m ?a + needed_size key val, base_m := m\<rparr>,
           index_m = \<lparr>seq_m = seq_m (index_m db) + 2,
                      data_m = ?ix\<lparr>slots_m := (slots_m ?ix)
                                  [unat i := new_slot key val (offset_m ?a)]\<rparr>\<rparr>\<rparr>"
    by blast
  have "unat (offset_m ?a) + length (entry_bytes key val) \<le> length (base_m ?a)"
    using d(4) by (rule mem_write_bounds)
  then have ins: "offset_m ?a \<le> size_m ?a"
    using wf_length[OF wf] by (simp add: word_le_nat_alt)
  have fr: "eq (?a\<lparr>offset_m := offset_m ?a + needed_size key val, base_m := m\<rparr>) key (hash key)
              (slots_m ?ix ! unat w)
            = eq ?a key (hash key) (slots_m ?ix ! unat w)"
    if "unat w < length (slots_m ?ix)" for w
    using wf d(4) ins that by (rule eq_frame_wf) simp
  have "\<forall>w. unat w < length (slots_m ?ix) \<longrightarrow>
          step ?ix (ucast (drop_bit 24 (hash key))) (length key)
            (eq (?a\<lparr>offset_m := offset_m ?a + needed_size key val, base_m := m\<rparr>) key (hash key)) w
        = step ?ix (ucast (drop_bit 24 (hash key))) (length key) (eq ?a key (hash key)) w"
    using fr by (auto intro!: step_eq_cong)
  then have "find_loop ?ix (ucast (drop_bit 24 (hash key))) (length key)
            (eq (?a\<lparr>offset_m := offset_m ?a + needed_size key val, base_m := m\<rparr>) key (hash key))
            n idx ft
        = find_loop ?ix (ucast (drop_bit 24 (hash key))) (length key) (eq ?a key (hash key))
            n idx ft" for n idx ft
    by (rule find_loop_cong)
  with d(5) have kf: "key_find db key = Some (i, fnd)"
    by (simp add: key_find_def find_def)
  show ?thesis
    by (rule that[OF d(1,2) _ ins d(4) kf d(6)]) (use d(3,7) in \<open>simp_all add: not_less\<close>)
qed

lemma put_OK_step:
  assumes wf: "wf db" and put: "put key val db = Some (OK, db')"
    and kf: "key_find db key = Some (i, fnd)"
    and rng: "unat j < length (slots_m (data_m (index_m db)))"
  shows "step (data_m (index_m db')) (ucast (drop_bit 24 (hash k))) (length k)
           (eq (arena_m db') k (hash k)) j
         = (if j = i then (if k = key then Stop_match else Continue)
            else step (data_m (index_m db)) (ucast (drop_bit 24 (hash k))) (length k)
                   (eq (arena_m db) k (hash k)) j)"
proof -
  from wf put obtain m i' fnd' where s:
    "length key \<le> 255"
    "offset_m (arena_m db) \<le> size_m (arena_m db)"
    "mem_write (base_m (arena_m db)) (unat (offset_m (arena_m db))) (entry_bytes key val) = Some m"
    "key_find db key = Some (i', fnd')"
    "unat i' < length (slots_m (data_m (index_m db)))"
    "base_m (arena_m db') = m"
    "slots_m (data_m (index_m db')) = (slots_m (data_m (index_m db)))
        [unat i' := new_slot key val (offset_m (arena_m db))]"
    by (rule put_OK_state)
  from kf s(4) have i: "i' = i" by simp
  show ?thesis
  proof (cases "j = i")
    case True
    have "unat (offset_m (arena_m db)) + length (entry_bytes key val) \<le> length (base_m (arena_m db))"
      using s(3) by (rule mem_write_bounds)
    then have "unat (offset_m (arena_m db)) + 8 \<le> unat (size_m (arena_m db))"
      using wf_length[OF wf] by (simp add: length_entry_bytes)
    then have v: "is_valid (new_slot key val (offset_m (arena_m db)))" by (rule new_slot_valid)
    have "slots_m (data_m (index_m db')) ! unat i = new_slot key val (offset_m (arena_m db))"
      using s(5,7) i by simp
    with s(3) s(1) v have
      "step (data_m (index_m db')) (ucast (drop_bit 24 (hash k))) (length k)
         (eq (arena_m db') k (hash k)) i = (if k = key then Stop_match else Continue)"
      unfolding s(6)[symmetric] by (rule new_slot_step)
    with True show ?thesis by simp
  next
    case False
    then have "unat j \<noteq> unat i" by (simp add: word_unat_eq_iff)
    then have same: "slots_m (data_m (index_m db')) ! unat j = slots_m (data_m (index_m db)) ! unat j"
      using s(7) i by simp
    have "eq (arena_m db') k (hash k) (slots_m (data_m (index_m db)) ! unat j)
            = eq (arena_m db) k (hash k) (slots_m (data_m (index_m db)) ! unat j)"
      using wf s(3) s(2) rng s(6) by (rule eq_frame_wf)
    with same False show ?thesis by (simp add: step_def Let_def)
  qed
qed

lemma put_OK_matches:
  assumes wf: "wf db" and put: "put key val db = Some (OK, db')"
    and kf: "key_find db key = Some (i, fnd)"
  shows "matches db' k j \<longleftrightarrow> (if j = i then k = key else matches db k j)"
proof -
  from wf put obtain i' where s:
    "unat i' < length (slots_m (data_m (index_m db)))"
    "key_find db key = Some (i', fnd)"
    "length (slots_m (data_m (index_m db'))) = length (slots_m (data_m (index_m db)))"
    by (rule put_OK_state) (use kf in auto)
  from kf s(2) have "i' = i" by simp
  with s(1) have ri: "unat i < length (slots_m (data_m (index_m db)))" by simp
  show ?thesis
  proof (cases "unat j < length (slots_m (data_m (index_m db)))")
    case True
    then show ?thesis
      using put_OK_step[OF wf put kf True, of k] s(3) by (simp add: matches_def)
  next
    case False
    with ri have "j \<noteq> i" by auto
    with False s(3) show ?thesis by (simp add: matches_def)
  qed
qed

text \<open>After a successful \<open>put\<close> the lookup finds the key in the slot that \<open>put\<close> wrote.\<close>

lemma put_OK_found:
  assumes wf: "wf db" and put: "put key val db = Some (OK, db')"
    and kf: "key_find db key = Some (i, fnd)"
  shows "key_find db' key = Some (i, True)"
proof -
  let ?ix = "data_m (index_m db)" and ?ix' = "data_m (index_m db')"
  let ?tag = "ucast (drop_bit 24 (hash key)) :: u8"
  let ?e = "eq (arena_m db) key (hash key)" and ?e' = "eq (arena_m db') key (hash key)"
  let ?n = "unat (capacity_m ?ix)" and ?home = "hash key AND mask_m ?ix"
  from wf put obtain i' where s:
    "unat i' < length (slots_m ?ix)" "key_find db key = Some (i', fnd)"
    "length (slots_m ?ix') = length (slots_m ?ix)" "mask_m ?ix' = mask_m ?ix"
    "capacity_m ?ix' = capacity_m ?ix"
    by (rule put_OK_state) (use kf in auto)
  from kf s(2) have "i' = i" by simp
  with s(1) have ri: "unat i < length (slots_m ?ix)" by simp
  have ok: "index_ok ?ix" using wf by (rule wf_index)
  have st: "step ?ix' ?tag (length key) ?e' w
      = (if w = i then Stop_match else step ?ix ?tag (length key) ?e w)"
    if "unat w < length (slots_m ?ix)" for w
    using put_OK_step[OF wf put kf that, of key] by simp
  have old: "find_loop ?ix ?tag (length key) ?e ?n ?home UINT32_MAX = Some (i, fnd)"
    using kf by (simp add: key_find_def find_def)
  have "find_loop ?ix' ?tag (length key) ?e' ?n ?home UINT32_MAX = Some (i, True)"
  proof (cases fnd)
    case True
    with old have o: "find_loop ?ix ?tag (length key) ?e ?n ?home UINT32_MAX = Some (i, True)" by simp
    then have "step ?ix ?tag (length key) ?e i = Stop_match" by (auto dest: find_loop_found)
    then have c: "\<forall>w. unat w < length (slots_m ?ix) \<longrightarrow> step ?ix ?tag (length key) ?e w = Continue
                 \<longrightarrow> step ?ix' ?tag (length key) ?e' w = Continue"
      using st by auto
    have sm: "step ?ix' ?tag (length key) ?e' i = Stop_match" using st ri by simp
    show ?thesis by (rule find_loop_transfer[OF o s(3) s(4) sm c])
  next
    case False
    with old have o: "find_loop ?ix ?tag (length key) ?e ?n ?home UINT32_MAX = Some (i, False)" by simp
    have "(i \<in> set (probe ?ix ?n ?home) \<and> unat i < length (slots_m ?ix)
            \<and> (is_empty (slots_m ?ix ! unat i) \<or> is_tombstone (slots_m ?ix ! unat i)))
       \<or> (i = probe_end ?ix ?n ?home
            \<and> (\<forall>w\<in>set (probe ?ix ?n ?home). unat w < length (slots_m ?ix) \<and> is_valid (slots_m ?ix ! unat w)))"
      using o index_ok_length[OF ok] by (rule find_loop_not_found)
    then have mem: "i \<in> set (probe ?ix ?n ?home)"
      using probe_end_home[OF ok] probe_home_first[OF ok] by auto
    have c: "\<forall>w. unat w < length (slots_m ?ix) \<longrightarrow> w \<noteq> i \<longrightarrow> step ?ix ?tag (length key) ?e w = Continue
                 \<longrightarrow> step ?ix' ?tag (length key) ?e' w = Continue"
      using st by auto
    have sm: "step ?ix' ?tag (length key) ?e' i = Stop_match" using st ri by simp
    show ?thesis by (rule find_loop_claimed[OF o mem index_ok_length[OF ok] s(3) s(4) sm c])
  qed
  then show ?thesis using s(4,5) by (simp add: key_find_def find_def)
qed

lemma put_OK_other:
  assumes wf: "wf db" and put: "put key val db = Some (OK, db')"
    and ne: "k \<noteq> key" and m: "matches db' k j"
  shows "key_find db' k = Some (j, True)"
proof -
  let ?ix = "data_m (index_m db)" and ?ix' = "data_m (index_m db')"
  let ?tag = "ucast (drop_bit 24 (hash k)) :: u8"
  let ?e = "eq (arena_m db) k (hash k)" and ?e' = "eq (arena_m db') k (hash k)"
  let ?n = "unat (capacity_m ?ix)" and ?home = "hash k AND mask_m ?ix"
  from wf put obtain i fnd where s:
    "key_find db key = Some (i, fnd)"
    "length (slots_m ?ix') = length (slots_m ?ix)" "mask_m ?ix' = mask_m ?ix"
    "capacity_m ?ix' = capacity_m ?ix"
    by (rule put_OK_state) auto
  have ji: "j \<noteq> i" and mo: "matches db k j"
    using m ne put_OK_matches[OF wf put s(1), of k j] by (auto split: if_splits)
  have old: "find_loop ?ix ?tag (length k) ?e ?n ?home UINT32_MAX = Some (j, True)"
    using wf_found[OF wf mo] by (simp add: key_find_def find_def)
  have st: "step ?ix' ?tag (length k) ?e' w
      = (if w = i then Continue else step ?ix ?tag (length k) ?e w)"
    if "unat w < length (slots_m ?ix)" for w
    using put_OK_step[OF wf put s(1) that, of k] ne by simp
  have c: "\<forall>w. unat w < length (slots_m ?ix) \<longrightarrow> step ?ix ?tag (length k) ?e w = Continue
                 \<longrightarrow> step ?ix' ?tag (length k) ?e' w = Continue"
    using st by auto
  have sm: "step ?ix' ?tag (length k) ?e' j = Stop_match" using m by (simp add: matches_def)
  have "find_loop ?ix' ?tag (length k) ?e' ?n ?home UINT32_MAX = Some (j, True)"
    by (rule find_loop_transfer[OF old s(2) s(3) sm c])
  then show ?thesis using s(3,4) by (simp add: key_find_def find_def)
qed

lemma record_value_written:
  assumes w: "mem_write m0 (unat off) (entry_bytes key val) = Some (base_m a)"
    and k: "length key \<le> 255" and v: "length val \<le> 65535"
  shows "record_value a (new_slot key val off) = Some val"
proof -
  have h: "read_header (base_m a) (unat off)
     = Some \<lparr>klen = of_nat (length key), vlen = of_nat (length val), hash_field = hash key\<rparr>"
    using w by (rule read_header_written)
  have "mem_read (base_m a) (unat off + 8 + length key) (length val) = Some val"
    using w by (rule val_written)
  then show ?thesis using h k v
    by (simp add: record_value_def new_slot_def sizeof_EntryHeader_def unat_of_nat_u16)
qed

section \<open>The invariant is established and kept\<close>

lemma index_ok_init:
  assumes "unat slots \<le> 2 ^ 31"
  shows "index_ok (init slots)"
proof -
  let ?v = "max slots 8"
  have u: "unat ?v = max (unat slots) 8"
    by (simp add: max_def word_le_nat_alt)
  then have "0 < unat ?v" "unat ?v \<le> 2 ^ 31" using assms by simp_all
  then obtain k where k: "k \<le> 31" "next_pow2 ?v = 2 ^ k" "unat ?v \<le> 2 ^ k"
    using next_pow2_correct[of ?v] by blast
  have "3 \<le> k"
  proof (rule ccontr)
    assume "\<not> 3 \<le> k"
    then have "k \<le> 2" by simp
    then have "(2::nat) ^ k \<le> 2 ^ 2" by (intro power_increasing) auto
    with k(3) u show False by simp
  qed
  with k show ?thesis by (auto simp: index_ok_def init_def Let_def)
qed

lemma wf_create:
  assumes "bytes \<le> 4294967295" and "unat slots \<le> 2 ^ 31"
  shows "wf (snd (create True bytes slots))"
proof -
  let ?db = "snd (create True bytes slots)"
  have db: "?db = \<lparr>arena_m = \<lparr>base_m = replicate bytes 0, size_m = of_nat bytes, offset_m = 8\<rparr>,
                  index_m = \<lparr>seq_m = 0, data_m = init slots\<rparr>\<rparr>"
    using assms(1) by (simp add: create_def Arena_create_def)
  have sl: "slots_m (init slots) ! n = Slot_empty" if "n < length (slots_m (init slots))" for n
    using that by (simp add: init_def Let_def)
  have e: "is_empty Slot_empty" "\<not> is_valid Slot_empty"
    by (simp_all add: is_empty_def is_valid_def Slot_empty_def OFF_EMPTY_def OFF_TOMB_def)
  have "unat (of_nat bytes :: u32) = bytes" using assms(1) by (simp add: unat_of_nat)
  moreover have "\<forall>s\<in>set (slots_m (init slots)). \<not> is_valid s"
    using e by (simp add: init_def Let_def)
  moreover have "\<not> matches ?db key j" for key j
    using sl[of "unat j"] e unfolding db by (auto simp: matches_def step_def Let_def)
  ultimately show ?thesis
    unfolding db using index_ok_init[OF assms(2)] by (simp add: wf_def)
qed




lemma get_total: "wf db \<Longrightarrow> \<exists>st v. get key out_val db = Some (st, v)"
proof -
  assume wf: "wf db"
  obtain r b where "key_find db key = Some (r, b)" using key_find_total[OF wf] by blast
  then show ?thesis using get_found[OF wf, of key r out_val] get_not_found[OF wf, of key r out_val]
    by (cases b) auto
qed

lemma arena_small_no_wrap:
  assumes sm: "arena_small db" and len: "length (base_m (arena_m db)) = unat (size_m (arena_m db))"
    and w: "mem_write (base_m (arena_m db)) (unat (offset_m (arena_m db))) (entry_bytes key val)
              = Some m"
    and k: "length key \<le> 255" and v: "length val \<le> 65535"
  shows "unat (offset_m (arena_m db) + needed_size key val)
           = unat (offset_m (arena_m db)) + unat (needed_size key val)"
proof -
  have "unat (offset_m (arena_m db)) + (8 + length key + length val) \<le> 4294967288"
    using mem_write_bounds[OF w] len sm by (simp add: arena_small_def length_entry_bytes)
  moreover have "unat (needed_size key val) \<le> 8 + length key + length val + 7"
    using k v by (rule needed_size_bounds(2))
  ultimately have "unat (offset_m (arena_m db)) + unat (needed_size key val) < 2 ^ 32" by simp
  then show ?thesis by (simp add: unat_add_lem[THEN iffD1])
qed

lemma slot_ok_new:
  assumes w: "mem_write m0 (unat off) (entry_bytes key val) = Some (base_m a)"
    and k: "length key \<le> 255" and v: "length val \<le> 65535"
    and lim: "unat off + (8 + length key + length val) \<le> arena_limit a"
  shows "slot_ok a (new_slot key val off)"
proof -
  have "read_header (base_m a) (unat off)
     = Some \<lparr>klen = of_nat (length key), vlen = of_nat (length val), hash_field = hash key\<rparr>"
    using w by (rule read_header_written)
  then show ?thesis using k v lim
    by (simp add: slot_ok_def new_slot_def unat_of_nat_u16)
qed

lemma slot_ok_below_write:
  assumes w: "mem_write (base_m a) off bs = Some (base_m a')" and ok: "slot_ok a s"
    and lim: "arena_limit a \<le> off" and lim': "arena_limit a \<le> arena_limit a'"
  shows "slot_ok a' s"
proof -
  from ok obtain e where e: "read_header (base_m a) (unat (offset s)) = Some e"
    and le: "unat (offset s) + 8 + unat (klen e) + unat (vlen e) \<le> arena_limit a"
    by (auto simp: slot_ok_def split: option.splits)
  have "read_header (base_m a') (unat (offset s)) = read_header (base_m a) (unat (offset s))"
    using w by (rule read_header_below_write) (use le lim in simp)
  then show ?thesis using e le lim' by (simp add: slot_ok_def)
qed

lemma wf_put_OK:
  assumes wf: "wf db" and sm: "arena_small db" and put: "put key val db = Some (OK, db')"
  shows "wf db'"
proof -
  let ?a = "arena_m db" and ?ix = "data_m (index_m db)"
  let ?a' = "arena_m db'" and ?ix' = "data_m (index_m db')"
  from wf put obtain m i fnd where s:
    "length key \<le> 255" "length val \<le> 65535"
    "offset_m ?a + needed_size key val \<le> size_m ?a"
    "offset_m ?a \<le> size_m ?a"
    "mem_write (base_m ?a) (unat (offset_m ?a)) (entry_bytes key val) = Some m"
    "key_find db key = Some (i, fnd)"
    "unat i < length (slots_m ?ix)"
    "base_m ?a' = m" "size_m ?a' = size_m ?a"
    "offset_m ?a' = offset_m ?a + needed_size key val"
    "seq_m (index_m db') = seq_m (index_m db) + 2"
    "slots_m ?ix' = (slots_m ?ix)[unat i := new_slot key val (offset_m ?a)]"
    "mask_m ?ix' = mask_m ?ix"
    "capacity_m ?ix' = capacity_m ?ix"
    by (rule put_OK_state)
  have nw: "unat (offset_m ?a + needed_size key val) = unat (offset_m ?a) + unat (needed_size key val)"
    using sm wf_length[OF wf] s(5) s(1) s(2) by (rule arena_small_no_wrap)
  have lim: "arena_limit ?a = unat (offset_m ?a)" using s(4) by (rule arena_limit_inside)
  have lim': "arena_limit ?a' = unat (offset_m ?a) + unat (needed_size key val)"
    using s(3) s(9) s(10) nw by (simp add: arena_limit_def)
  have w': "mem_write (base_m ?a) (unat (offset_m ?a)) (entry_bytes key val) = Some (base_m ?a')"
    using s(5) s(8) by simp
  have 1: "seq_m (index_m db') AND 1 = 0"
    using wf_seq[OF wf] s(11) by (simp add: seq_plus_2_even)
  have 2: "index_ok ?ix'"
    using wf_index[OF wf] s(12,13,14) by (simp add: index_ok_def)
  have 3: "length (base_m ?a') = unat (size_m ?a')"
    using mem_write_length[OF s(5)] wf_length[OF wf] s(8,9) by simp
  have 4: "slot_ok ?a' t" if t: "t \<in> set (slots_m ?ix')" "is_valid t" for t
  proof -
    from t(1) s(12) have "t = new_slot key val (offset_m ?a) \<or> t \<in> set (slots_m ?ix)"
      using set_update_subset_insert[of "slots_m ?ix" "unat i" "new_slot key val (offset_m ?a)"]
      by auto
    then show ?thesis
    proof
      assume "t = new_slot key val (offset_m ?a)"
      moreover have "slot_ok ?a' (new_slot key val (offset_m ?a))"
        using w' s(1) s(2)
        by (rule slot_ok_new) (use lim' needed_size_bounds(1)[OF s(1) s(2)] in simp)
      ultimately show ?thesis by simp
    next
      assume "t \<in> set (slots_m ?ix)"
      with wf t(2) have "slot_ok ?a t" by (simp add: wf_def)
      with w' show ?thesis
        by (rule slot_ok_below_write) (simp_all add: lim lim')
    qed
  qed
  have 5: "key_find db' k = Some (j, True)" if m: "matches db' k j" for k j
  proof (cases "k = key")
    case True
    have "j = i"
    proof (rule ccontr)
      assume ne: "j \<noteq> i"
      with m True have "matches db key j"
        using put_OK_matches[OF wf put s(6), of key j] by simp
      with wf have "key_find db key = Some (j, True)" by (rule wf_found)
      with s(6) ne show False by simp
    qed
    with True show ?thesis using put_OK_found[OF wf put s(6)] by simp
  next
    case False
    with wf put show ?thesis using m by (rule put_OK_other)
  qed
  show ?thesis unfolding wf_def using 1 2 3 4 5 by blast
qed

lemma eq_cong_base: "base_m a' = base_m a \<Longrightarrow> eq a' key h s = eq a key h s"
  by (simp add: eq_def split: option.splits)

lemma wf_put_other:
  assumes wf: "wf db" and put: "put key val db = Some (st, db')" and st: "st \<noteq> OK"
  shows "wf db'"
proof -
  have cases: "db' = db \<or> (st = ArenaFull \<and> offset_m (arena_m db) + needed_size key val > size_m (arena_m db)
      \<and> db' = db\<lparr>arena_m := (arena_m db)\<lparr>offset_m := offset_m (arena_m db) + needed_size key val\<rparr>\<rparr>)"
    using put st
    by (auto simp: put_def MAX_KEY_def MAX_VAL_def alloc_def needed_size_def Let_def SeqLock_write_def
             split: if_splits option.splits prod.splits)
  then show ?thesis
  proof
    assume "db' = db"
    with wf show ?thesis by simp
  next
    assume a: "st = ArenaFull \<and> offset_m (arena_m db) + needed_size key val > size_m (arena_m db)
      \<and> db' = db\<lparr>arena_m := (arena_m db)\<lparr>offset_m := offset_m (arena_m db) + needed_size key val\<rparr>\<rparr>"
    let ?a' = "(arena_m db)\<lparr>offset_m := offset_m (arena_m db) + needed_size key val\<rparr>"
    have lim: "arena_limit (arena_m db) \<le> arena_limit ?a'"
      using a arena_limit_le_size[of "arena_m db"] by (simp add: arena_limit_def not_le[symmetric])
    have so: "slot_ok ?a' t" if "slot_ok (arena_m db) t" for t
      using that lim by (auto simp: slot_ok_def split: option.splits)
    have e: "eq ?a' = eq (arena_m db)" by (intro ext eq_cong_base) simp
    have "matches db' k j = matches db k j" "key_find db' k = key_find db k" for k j
      using a e by (simp_all add: matches_def key_find_def)
    then show ?thesis using wf a so by (simp add: wf_def)
  qed
qed

lemma wf_put:
  assumes "wf db" and "arena_small db" and "put key val db = Some (st, db')"
  shows "wf db' \<and> arena_small db'"
proof -
  have "size_m (arena_m db') = size_m (arena_m db)"
    using assms(3)
    by (auto simp: put_def MAX_KEY_def MAX_VAL_def alloc_def Let_def SeqLock_write_def
             split: if_splits option.splits prod.splits)
  then have "arena_small db'" using assms(2) by (simp add: arena_small_def)
  moreover have "wf db'"
    using wf_put_OK[OF assms(1,2)] wf_put_other[OF assms(1)] assms(3) by (cases "st = OK") auto
  ultimately show ?thesis by simp
qed

section \<open>What del does\<close>

lemma make_tombstone_is: "is_tombstone (make_tombstone s)" "\<not> is_empty (make_tombstone s)"
  "\<not> is_valid (make_tombstone s)"
  by (simp_all add: make_tombstone_def is_tombstone_def is_empty_def is_valid_def
        OFF_TOMB_def OFF_EMPTY_def)

lemma del_found:
  assumes wf: "wf db" and kf: "key_find db key = Some (i, True)"
  shows "del key db = Some (OK, db\<lparr>index_m := \<lparr>seq_m = seq_m (index_m db) + 2,
           data_m = (data_m (index_m db))\<lparr>slots_m := (slots_m (data_m (index_m db)))
             [unat i := make_tombstone (slots_m (data_m (index_m db)) ! unat i)]\<rparr>\<rparr>\<rparr>)"
proof -
  have "unat i < length (slots_m (data_m (index_m db)))"
    using key_find_found[OF kf] by (simp add: matches_def)
  then show ?thesis using kf wf_seq[OF wf] by (simp add: del_unfold)
qed

lemma del_not_found:
  assumes wf: "wf db" and kf: "key_find db key = Some (i, False)"
  shows "del key db = Some (NotFound, db\<lparr>index_m := \<lparr>seq_m = seq_m (index_m db) + 2,
           data_m = data_m (index_m db)\<rparr>\<rparr>)"
  using kf wf_seq[OF wf] by (simp add: del_unfold)

lemma del_step:
  assumes "slots_m ix' = (slots_m ix)[unat i := make_tombstone (slots_m ix ! unat i)]"
    and "unat j < length (slots_m ix)"
  shows "step ix' tag kl e j = (if j = i then Continue else step ix tag kl e j)"
proof (cases "j = i")
  case True
  then show ?thesis using assms make_tombstone_is by (simp add: step_def Let_def)
next
  case False
  then have "unat j \<noteq> unat i" by (simp add: word_unat_eq_iff)
  then show ?thesis using assms False by (simp add: step_def Let_def)
qed


lemma wf_del_found:
  assumes wf: "wf db" and kf: "key_find db key = Some (i, True)"
    and db': "db' = db\<lparr>index_m := \<lparr>seq_m = seq_m (index_m db) + 2,
           data_m = (data_m (index_m db))\<lparr>slots_m := (slots_m (data_m (index_m db)))
             [unat i := make_tombstone (slots_m (data_m (index_m db)) ! unat i)]\<rparr>\<rparr>\<rparr>"
  shows "wf db'" and "matches db' k j \<longleftrightarrow> j \<noteq> i \<and> matches db k j"
proof -
  let ?ix = "data_m (index_m db)" and ?ix' = "data_m (index_m db')"
  have sl: "slots_m ?ix' = (slots_m ?ix)[unat i := make_tombstone (slots_m ?ix ! unat i)]"
    and ms: "mask_m ?ix' = mask_m ?ix" and cp: "capacity_m ?ix' = capacity_m ?ix"
    and ar: "arena_m db' = arena_m db" and sq: "seq_m (index_m db') = seq_m (index_m db) + 2"
    using db' by simp_all
  have len: "length (slots_m ?ix') = length (slots_m ?ix)" using sl by simp
  have st: "step ?ix' tag kl e w = (if w = i then Continue else step ?ix tag kl e w)"
    if "unat w < length (slots_m ?ix)" for w tag kl e
    using sl that by (rule del_step)
  show m: "matches db' k j \<longleftrightarrow> j \<noteq> i \<and> matches db k j" for k j
    using st[of j] len ar by (auto simp: matches_def split: if_splits)
  have 4: "slot_ok (arena_m db') t" if t: "t \<in> set (slots_m ?ix')" "is_valid t" for t
  proof -
    from t(1) sl have "t = make_tombstone (slots_m ?ix ! unat i) \<or> t \<in> set (slots_m ?ix)"
      using set_update_subset_insert[of "slots_m ?ix" "unat i"] by auto
    with t(2) make_tombstone_is(3) have "t \<in> set (slots_m ?ix)" by auto
    with wf t(2) show ?thesis using ar by (simp add: wf_def)
  qed
  have 5: "key_find db' k = Some (j, True)" if mt: "matches db' k j" for k j
  proof -
    let ?tag = "ucast (drop_bit 24 (hash k)) :: u8" and ?e = "eq (arena_m db) k (hash k)"
    from mt have ji: "j \<noteq> i" and mo: "matches db k j" using m by auto
    have old: "find_loop ?ix ?tag (length k) ?e (unat (capacity_m ?ix)) (hash k AND mask_m ?ix)
                 UINT32_MAX = Some (j, True)"
      using wf_found[OF wf mo] by (simp add: key_find_def find_def)
    have sm: "step ?ix' ?tag (length k) ?e j = Stop_match" using mt ar by (simp add: matches_def)
    have c: "\<forall>w. unat w < length (slots_m ?ix) \<longrightarrow> step ?ix ?tag (length k) ?e w = Continue
                 \<longrightarrow> step ?ix' ?tag (length k) ?e w = Continue"
      using st by auto
    have "find_loop ?ix' ?tag (length k) ?e (unat (capacity_m ?ix)) (hash k AND mask_m ?ix)
            UINT32_MAX = Some (j, True)"
      by (rule find_loop_transfer[OF old len ms sm c])
    then show ?thesis using ms cp ar by (simp add: key_find_def find_def)
  qed
  have "seq_m (index_m db') AND 1 = 0" using wf_seq[OF wf] sq by (simp add: seq_plus_2_even)
  moreover have "index_ok ?ix'" using wf_index[OF wf] len ms cp by (simp add: index_ok_def)
  moreover have "length (base_m (arena_m db')) = unat (size_m (arena_m db'))"
    using wf_length[OF wf] ar by simp
  ultimately show "wf db'" unfolding wf_def using 4 5 by blast
qed


section \<open>Round trip\<close>

lemma put_then_get:
  assumes wf: "wf db" and k: "length key \<le> 255" and v: "length val \<le> 65535"
    and put: "put key val db = Some (OK, db')"
  shows "get key out_val db' = Some (OK, val)"
proof -
  from wf put obtain m i fnd where s:
    "mem_write (base_m (arena_m db)) (unat (offset_m (arena_m db))) (entry_bytes key val) = Some m"
    "key_find db key = Some (i, fnd)"
    "unat i < length (slots_m (data_m (index_m db)))"
    "base_m (arena_m db') = m"
    "seq_m (index_m db') = seq_m (index_m db) + 2"
    "slots_m (data_m (index_m db')) = (slots_m (data_m (index_m db)))
        [unat i := new_slot key val (offset_m (arena_m db))]"
    by (rule put_OK_state)
  have kf: "key_find db' key = Some (i, True)" using wf put s(2) by (rule put_OK_found)
  have ev: "seq_m (index_m db') AND 1 = 0"
    using wf_seq[OF wf] s(5) by (simp add: seq_plus_2_even)
  have at: "at (data_m (index_m db')) i = Some (new_slot key val (offset_m (arena_m db)))"
    using s(3,6) by (simp add: at_def)
  have "record_value (arena_m db') (new_slot key val (offset_m (arena_m db))) = Some val"
    using s(1) k v unfolding s(4)[symmetric] by (rule record_value_written)
  with kf ev at show ?thesis by (simp add: get_unfold)
qed


section \<open>The example stores\<close>

lemma wf_ex_db0: "wf ex_db0"
  unfolding ex_db0_def by (rule wf_create) simp_all

lemma arena_small_ex_db0: "arena_small ex_db0"
  by (simp add: ex_db0_def arena_small_def create_def Arena_create_def)

lemma put_ex_db0: "put [107] [118] ex_db0 = Some (OK, ex_db1)"
  by code_simp

lemma wf_ex_db1: "wf ex_db1" "arena_small ex_db1"
  using wf_put[OF wf_ex_db0 arena_small_ex_db0 put_ex_db0] by simp_all

section \<open>Keys longer than a slot can record\<close>

lemma step_long_key:
  assumes "255 < kl"
  shows "step ix tag kl e w \<noteq> Fault" and "step ix tag kl e w \<noteq> Stop_match"
proof -
  have "unat (key_len (slots_m ix ! unat w)) < 2 ^ 8"
    by (rule order_less_le_trans[OF unsigned_less]) simp
  with assms have "unat (key_len (slots_m ix ! unat w)) \<noteq> kl" by simp
  then show "step ix tag kl e w \<noteq> Fault" and "step ix tag kl e w \<noteq> Stop_match"
    by (simp_all add: step_def Let_def)
qed

lemma find_long_key:
  assumes ok: "index_ok ix" and long: "255 < kl"
  shows "\<exists>r. find ix h kl e = Some (r, False)"
proof -
  let ?n = "unat (capacity_m ix)" and ?home = "h AND mask_m ix"
  let ?tag = "ucast (drop_bit 24 h) :: u8"
  have home: "unat ?home < length (slots_m ix)" using ok by (rule index_ok_masked)
  have "\<forall>w\<in>set (probe ix ?n ?home). unat w < length (slots_m ix) \<and> step ix ?tag kl e w \<noteq> Fault"
    using probe_in_range[OF ok home] step_long_key(1)[OF long] by blast
  then obtain r b where rb: "find_loop ix ?tag kl e ?n ?home UINT32_MAX = Some (r, b)"
    using find_loop_no_fault by blast
  have "\<not> b"
  proof
    assume b
    with rb have "step ix ?tag kl e r = Stop_match" by (auto dest: find_loop_found)
    with step_long_key(2)[OF long] show False by blast
  qed
  with rb show ?thesis by (simp add: find_def)
qed

section \<open>Slots in use\<close>







lemma get_cong:
  assumes "data_m (index_m db') = data_m (index_m db)"
    and "seq_m (index_m db') AND 1 = 0 \<longleftrightarrow> seq_m (index_m db) AND 1 = 0"
    and "base_m (arena_m db') = base_m (arena_m db)"
  shows "get key out_val db' = get key out_val db"
proof -
  have "eq (arena_m db') = eq (arena_m db)" using assms(3) by (intro ext eq_cong_base)
  then have "key_find db' key = key_find db key" using assms(1) by (simp add: key_find_def)
  moreover have "record_value (arena_m db') s = record_value (arena_m db) s" for s
    using assms(3) by (simp add: record_value_def split: option.splits)
  ultimately show ?thesis using assms(1,2) by (auto simp: get_unfold split: option.splits)
qed

section \<open>Operations on another key\<close>









section \<open>Sequences that do not wrap the cursor\<close>



section \<open>A put that the arena rejects\<close>

lemma del_status_cong:
  assumes "index_m db' = index_m db" and "base_m (arena_m db') = base_m (arena_m db)"
  shows "map_option fst (del key db') = map_option fst (del key db)"
proof -
  have "eq (arena_m db') = eq (arena_m db)" using assms(2) by (intro ext eq_cong_base)
  then have "key_find db' key = key_find db key" using assms(1) by (simp add: key_find_def)
  then show ?thesis using assms(1) by (auto simp: del_unfold split: option.splits)
qed

lemma put_ArenaFull_effect:
  assumes "put key val db = Some (ArenaFull, db')"
  shows "index_m db' = index_m db" "base_m (arena_m db') = base_m (arena_m db)"
    "size_m (arena_m db') = size_m (arena_m db)"
    "offset_m (arena_m db') = offset_m (arena_m db) + needed_size key val"
  using put_ArenaFull_D[OF assms] by auto

section \<open>Repeated failing puts\<close>

lemma failed_puts:
  assumes k: "length key \<le> 255" and v: "length val \<le> 65535"
    and gt: "unat (size_m (arena_m db))
               < unat (offset_m (arena_m db)) + unat (needed_size key val)"
    and nw: "unat (offset_m (arena_m db)) + n * unat (needed_size key val) < 2 ^ 32"
  shows "run_ops (replicate n (Put key val)) db
     = Some (replicate n ArenaFull,
             db\<lparr>arena_m := (arena_m db)\<lparr>offset_m :=
                   offset_m (arena_m db) + of_nat n * needed_size key val\<rparr>\<rparr>)"
  using gt nw
proof (induction n arbitrary: db)
  case 0
  show ?case by simp
next
  case (Suc n)
  let ?a = "arena_m db" and ?need = "needed_size key val"
  let ?db1 = "db\<lparr>arena_m := ?a\<lparr>offset_m := offset_m ?a + ?need\<rparr>\<rparr>"
  have "unat (offset_m ?a) + unat ?need < 2 ^ 32" using Suc.prems(2) by simp
  then have sum: "unat (offset_m ?a + ?need) = unat (offset_m ?a) + unat ?need"
    by (simp add: unat_add_lem[THEN iffD1])
  have full: "offset_m ?a + ?need > size_m ?a"
    using Suc.prems(1) sum by (simp add: word_less_nat_alt)
  have p: "put key val db = Some (ArenaFull, ?db1)" using k v full by (rule put_ArenaFull)
  have "run_ops (replicate n (Put key val)) ?db1
     = Some (replicate n ArenaFull,
             ?db1\<lparr>arena_m := (arena_m ?db1)\<lparr>offset_m :=
                   offset_m (arena_m ?db1) + of_nat n * ?need\<rparr>\<rparr>)"
    by (rule Suc.IH) (use Suc.prems sum in simp_all)
  with p show ?case by (simp add: algebra_simps)
qed

lemma arena_ex_db0:
  "arena_m ex_db0 = \<lparr>base_m = replicate 64 0, size_m = 64, offset_m = 8\<rparr>"
  by (simp add: ex_db0_def create_def Arena_create_def)

lemma needed_size_max: "needed_size [107] (replicate 65535 0) = 65544"
proof -
  have "unat (needed_size [107] (replicate 65535 0)) = 65544"
    unfolding needed_size_def unat_and_not_7 by (simp add: sizeof_EntryHeader_def)
  then show ?thesis by (simp add: word_unat_eq_iff)
qed

section \<open>The tag and the home bucket\<close>

lemma unat_tag: "unat (ucast (drop_bit 24 h) :: u8) = unat h div 2 ^ 24" for h :: u32
proof -
  have "unat h < 2 ^ 32" by (rule order_less_le_trans[OF unsigned_less]) simp
  then have lt: "unat h div 2 ^ 24 < 2 ^ 8" by (simp add: less_mult_imp_div_less)
  have "unat (drop_bit 24 h) = unat h div 2 ^ 24"
    by (simp add: drop_bit_eq_div unat_div)
  then have "unat (ucast (drop_bit 24 h) :: u8) = (unat h div 2 ^ 24) mod 2 ^ 8"
    by (simp add: unsigned_ucast_eq take_bit_eq_mod)
  with lt show ?thesis by simp
qed

lemma home_mod:
  assumes "index_ok ix"
  shows "unat (h AND mask_m ix) = unat h mod unat (capacity_m ix)"
proof -
  from assms obtain k where k: "mask_m ix = mask k" "unat (capacity_m ix) = 2 ^ k"
    by (rule index_okD)
  have "h AND mask k = take_bit k h" by (simp add: take_bit_eq_mask)
  moreover have "unat (take_bit k h) = take_bit k (unat h)" by (rule unsigned_take_bit_eq)
  ultimately show ?thesis using k by (simp add: take_bit_eq_mod)
qed

lemma find_home_empty:
  assumes ok: "index_ok ix"
    and em: "is_empty (slots_m ix ! unat (h AND mask_m ix))"
  shows "find ix h kl e = Some (h AND mask_m ix, False)"
proof -
  from ok obtain k where k: "unat (capacity_m ix) = 2 ^ k" by (rule index_okD)
  then have "0 < unat (capacity_m ix)" by simp
  then obtain n where n: "unat (capacity_m ix) = Suc n" by (auto simp: gr0_conv_Suc)
  have "step ix (ucast (drop_bit 24 h)) kl e (h AND mask_m ix) = Stop_empty"
    using em by (simp add: step_def)
  then show ?thesis using index_ok_masked[OF ok, of h] n
    by (simp add: find_def find_loop_Suc del: find_loop.simps)
qed

lemma put_OK_slot:
  assumes wf: "wf db" and put: "put key val db = Some (OK, db')"
  shows "\<exists>i. key_find db' key = Some (i, True)
           \<and> hash_tag (slots_m (data_m (index_m db')) ! unat i) = ucast (drop_bit 24 (hash key))
           \<and> (is_empty (slots_m (data_m (index_m db))
                   ! unat (hash key AND mask_m (data_m (index_m db))))
                \<longrightarrow> i = hash key AND mask_m (data_m (index_m db)))"
proof -
  let ?ix = "data_m (index_m db)" and ?ix' = "data_m (index_m db')"
  from wf put obtain i fnd where s:
    "key_find db key = Some (i, fnd)"
    "unat i < length (slots_m ?ix)"
    "slots_m ?ix' = (slots_m ?ix)[unat i := new_slot key val (offset_m (arena_m db))]"
    by (rule put_OK_state)
  have f: "key_find db' key = Some (i, True)" using wf put s(1) by (rule put_OK_found)
  have t: "hash_tag (slots_m ?ix' ! unat i) = ucast (drop_bit 24 (hash key))"
    using s(2,3) by (simp add: new_slot_def)
  have h: "i = hash key AND mask_m ?ix" if "is_empty (slots_m ?ix ! unat (hash key AND mask_m ?ix))"
    using find_home_empty[OF wf_index[OF wf] that, of "length key" "eq (arena_m db) key (hash key)"]
      s(1) by (simp add: key_find_def)
  from f t h show ?thesis by blast
qed

section \<open>Claims\<close>

text \<open>
  C8, evaluated where it fails. A store created with more than \<open>2^31\<close> slots gets
  capacity 0, mask \<open>0xFFFFFFFF\<close> and an empty slot array: the increment at the end of
  \<open>next_pow2\<close> overflows. The capacity is then not the smallest power of two that is
  at least \<open>max(s, 8)\<close>; it is not a power of two at all.
\<close>

theorem init_capacity_overflow:
  "capacity_m (init 0x80000001) = 0 \<and> mask_m (init 0x80000001) = 0xFFFFFFFF
   \<and> slots_m (init 0x80000001) = []"
  by code_simp



text \<open>
  C1. In a well-formed store, for a key of at most 255 bytes and a value of at most
  65535 bytes: if \<open>put key val\<close> returns \<open>OK\<close>, then \<open>get key\<close> on the store it leaves
  returns \<open>OK\<close> and the output buffer holds exactly the bytes of \<open>val\<close>. Well-formed
  (\<open>wf\<close>) is the invariant that \<open>create\<close> establishes (\<open>wf_create\<close>) and that \<open>put\<close> and
  \<open>del\<close> keep (\<open>wf_put\<close>, \<open>wf_del\<close>).
\<close>

theorem put_get_roundtrip:
  assumes "wf db" and "length key \<le> 255" and "length val \<le> 65535"
    and "put key val db = Some (OK, db')"
  shows "get key out_val db' = Some (OK, val)"
  using assms by (rule put_then_get)

theorem put_get_roundtrip_witness:
  "wf ex_db0 \<and> length [107 :: u8] \<le> 255 \<and> length [118 :: u8] \<le> 65535
   \<and> put [107] [118] ex_db0 = Some (OK, ex_db1)
   \<and> get [107] [] ex_db1 = Some (OK, [118])"
  using put_get_roundtrip[OF wf_ex_db0 _ _ put_ex_db0, of "[]"] wf_ex_db0 put_ex_db0
  by simp

text \<open>
  C6. In a well-formed store \<open>del key\<close> returns \<open>OK\<close> exactly when the lookup finds the
  key. Then the key's slot becomes a tombstone and a following \<open>get key\<close> returns
  \<open>NotFound\<close>. When the lookup does not find the key, \<open>del\<close> returns \<open>NotFound\<close> and
  the slots are unchanged.
\<close>

theorem del_semantics:
  assumes "wf db"
  shows "\<exists>i fnd db'. key_find db key = Some (i, fnd)
      \<and> del key db = Some (if fnd then OK else NotFound, db')
      \<and> (fnd \<longrightarrow> slots_m (data_m (index_m db'))
               = (slots_m (data_m (index_m db)))
                   [unat i := make_tombstone (slots_m (data_m (index_m db)) ! unat i)]
             \<and> unat i < length (slots_m (data_m (index_m db)))
             \<and> is_tombstone (slots_m (data_m (index_m db')) ! unat i)
             \<and> get key out_val db' = Some (NotFound, out_val))
      \<and> (\<not> fnd \<longrightarrow> slots_m (data_m (index_m db')) = slots_m (data_m (index_m db)))"
proof -
  obtain i fnd where kf: "key_find db key = Some (i, fnd)"
    using key_find_total[OF assms] by blast
  show ?thesis
  proof (cases fnd)
    case True
    let ?db' = "db\<lparr>index_m := \<lparr>seq_m = seq_m (index_m db) + 2,
           data_m = (data_m (index_m db))\<lparr>slots_m := (slots_m (data_m (index_m db)))
             [unat i := make_tombstone (slots_m (data_m (index_m db)) ! unat i)]\<rparr>\<rparr>\<rparr>"
    from True kf have kft: "key_find db key = Some (i, True)" by simp
    have d: "del key db = Some (OK, ?db')" using assms kft by (rule del_found)
    have wf': "wf ?db'" using assms kft by (rule wf_del_found(1)) simp
    have m: "matches ?db' key j \<longleftrightarrow> j \<noteq> i \<and> matches db key j" for j
      using assms kft by (rule wf_del_found(2)) simp
    have ri: "unat i < length (slots_m (data_m (index_m db)))"
      using key_find_found[OF kft] by (simp add: matches_def)
    obtain r b where kf': "key_find ?db' key = Some (r, b)"
      using key_find_total[OF wf'] by blast
    have "\<not> b"
    proof
      assume b
      with kf' have "matches ?db' key r" by (auto dest: key_find_found)
      with m have "r \<noteq> i" "matches db key r" by auto
      with wf_found[OF assms] kft show False by auto
    qed
    with kf' have "get key out_val ?db' = Some (NotFound, out_val)"
      using get_not_found[OF wf'] by simp
    with kft d ri True show ?thesis using make_tombstone_is(1) by auto
  next
    case False
    with kf have "del key db = Some (NotFound, db\<lparr>index_m := \<lparr>seq_m = seq_m (index_m db) + 2,
           data_m = data_m (index_m db)\<rparr>\<rparr>)"
      using del_not_found[OF assms] by simp
    with kf False show ?thesis by auto
  qed
qed

theorem del_semantics_witness:
  "wf ex_db1 \<and> key_find ex_db1 [107] = Some (2, True)
   \<and> (\<exists>db'. del [107] ex_db1 = Some (OK, db')
          \<and> is_tombstone (slots_m (data_m (index_m db')) ! 2)
          \<and> get [107] [] db' = Some (NotFound, []))"
proof -
  have kf: "key_find ex_db1 [107] = Some (2, True)" by code_simp
  from del_semantics[OF wf_ex_db1(1), of "[107]" "[]"] kf
  show ?thesis using wf_ex_db1(1) by auto
qed

text \<open>
  C9. With an even sequence counter and a power-of-two index (both part of \<open>wf\<close>), a key
  longer than 255 bytes is never found: \<open>get\<close> returns \<open>NotFound\<close> and leaves the buffer,
  \<open>del\<close> returns \<open>NotFound\<close> and leaves the slots. Neither returns \<open>KeyTooLong\<close>.
\<close>

theorem long_key_not_found:
  assumes "seq_m (index_m db) AND 1 = 0" and "index_ok (data_m (index_m db))"
    and "255 < length key"
  shows "get key out_val db = Some (NotFound, out_val)
     \<and> del key db = Some (NotFound, db\<lparr>index_m := \<lparr>seq_m = seq_m (index_m db) + 2,
                                                     data_m = data_m (index_m db)\<rparr>\<rparr>)"
proof -
  obtain r where "key_find db key = Some (r, False)"
    using find_long_key[OF assms(2,3)] unfolding key_find_def by blast
  then show ?thesis using assms(1) by (simp add: get_unfold del_unfold)
qed

theorem long_key_not_found_witness:
  "seq_m (index_m ex_db1) AND 1 = 0 \<and> index_ok (data_m (index_m ex_db1))
   \<and> 255 < length (replicate 256 (107 :: u8))
   \<and> get (replicate 256 107) [1, 2] ex_db1 = Some (NotFound, [1, 2])
   \<and> fst (the (del (replicate 256 107) ex_db1)) = NotFound"
  using long_key_not_found[OF wf_seq[OF wf_ex_db1(1)] wf_index[OF wf_ex_db1(1)],
          of "replicate 256 107" "[1, 2]"]
        wf_seq[OF wf_ex_db1(1)] wf_index[OF wf_ex_db1(1)]
  by simp






text \<open>Claim C2, as stated: a \<open>put\<close> that returns \<open>ArenaFull\<close> changes no state of the store.
  It fails: \<open>alloc\<close> adds the size to the cursor before it compares, so the failed \<open>put\<close>
  leaves the cursor advanced, and a later \<open>put\<close> can tell. In the fresh store of 64 bytes
  the cursor is 8; \<open>put\<close> of a 60-byte value asks for 72 bytes and returns \<open>ArenaFull\<close>
  with the cursor at 80; \<open>put("k", "v")\<close>, which returns \<open>OK\<close> on the fresh store, returns
  \<open>ArenaFull\<close> after the failed call.\<close>

theorem failed_put_advances_cursor:
  "offset_m (arena_m ex_db0) = 8
   \<and> put [107] (replicate 60 0) ex_db0
       = Some (ArenaFull, ex_db0\<lparr>arena_m := (arena_m ex_db0)\<lparr>offset_m := 80\<rparr>\<rparr>)
   \<and> map_option fst (put [107] [118] ex_db0) = Some OK
   \<and> map_option fst (put [107] [118] (ex_db0\<lparr>arena_m := (arena_m ex_db0)\<lparr>offset_m := 80\<rparr>\<rparr>))
       = Some ArenaFull"
  by code_simp

text \<open>Claim C2, amended: when \<open>put\<close> returns \<open>ArenaFull\<close>, the index (its slots and its
  sequence counter), the bytes of the arena and its size are unchanged, and the arena
  cursor has advanced by the rounded record size; so every \<open>get\<close> returns what it returned
  before the call, and every \<open>del\<close> returns the status it would have returned before.\<close>

theorem put_ArenaFull_only_moves_cursor:
  assumes "put key val db = Some (ArenaFull, db')"
  shows "index_m db' = index_m db
       \<and> base_m (arena_m db') = base_m (arena_m db)
       \<and> size_m (arena_m db') = size_m (arena_m db)
       \<and> offset_m (arena_m db') = offset_m (arena_m db) + needed_size key val
       \<and> (\<forall>k out_val. get k out_val db' = get k out_val db)
       \<and> (\<forall>k. map_option fst (del k db') = map_option fst (del k db))"
proof -
  note e = put_ArenaFull_effect[OF assms]
  have "get k out_val db' = get k out_val db" for k out_val
    using e(1,2) by (intro get_cong) simp_all
  moreover have "map_option fst (del k db') = map_option fst (del k db)" for k
    using e(1,2) by (rule del_status_cong)
  ultimately show ?thesis using e by simp
qed

theorem put_ArenaFull_only_moves_cursor_witness:
  "put [107] (replicate 60 0) ex_db0
       = Some (ArenaFull, ex_db0\<lparr>arena_m := (arena_m ex_db0)\<lparr>offset_m := 80\<rparr>\<rparr>)
   \<and> index_m (ex_db0\<lparr>arena_m := (arena_m ex_db0)\<lparr>offset_m := 80\<rparr>\<rparr>) = index_m ex_db0
   \<and> offset_m (arena_m (ex_db0\<lparr>arena_m := (arena_m ex_db0)\<lparr>offset_m := 80\<rparr>\<rparr>))
       = offset_m (arena_m ex_db0) + needed_size [107] (replicate 60 0)
   \<and> get [107] [] (ex_db0\<lparr>arena_m := (arena_m ex_db0)\<lparr>offset_m := 80\<rparr>\<rparr>)
       = get [107] [] ex_db0"
proof -
  have p: "put [107] (replicate 60 0) ex_db0
       = Some (ArenaFull, ex_db0\<lparr>arena_m := (arena_m ex_db0)\<lparr>offset_m := 80\<rparr>\<rparr>)"
    by code_simp
  show ?thesis using p put_ArenaFull_only_moves_cursor[OF p] by blast
qed

text \<open>Claim C3: once a \<open>put\<close> has returned \<open>ArenaFull\<close>, every later \<open>put\<close> returns
  \<open>ArenaFull\<close>. The code breaks it when the 32-bit cursor wraps: \<open>alloc\<close> compares
  \<open>old_off + size\<close>, computed modulo \<open>2 ^ 32\<close>, with the arena size. In the fresh store of
  64 bytes, 65528 puts of a 65535-byte value (65544 bytes each) all return \<open>ArenaFull\<close>
  and leave the cursor at \<open>4294967240 = 2 ^ 32 - 56\<close>. The next \<open>put\<close>, of a 47-byte value,
  asks for 56 bytes: the sum wraps to 0, \<open>alloc\<close> reports success with the offset
  4294967240, far outside the 64 bytes of the arena, and \<open>put\<close> writes the record there
  instead of returning \<open>ArenaFull\<close>.\<close>

theorem cursor_wrap_ends_exhaustion:
  "size_m (arena_m ex_db0) = 64
   \<and> run_ops (replicate 65528 (Put [107] (replicate 65535 0))) ex_db0
       = Some (replicate 65528 ArenaFull,
               ex_db0\<lparr>arena_m := (arena_m ex_db0)\<lparr>offset_m := 4294967240\<rparr>\<rparr>)
   \<and> needed_size [107] (replicate 47 0) = 56
   \<and> alloc 56 ((arena_m ex_db0)\<lparr>offset_m := 4294967240\<rparr>)
       = (Inr 4294967240, (arena_m ex_db0)\<lparr>offset_m := 0\<rparr>)
   \<and> put [107] (replicate 47 0) (ex_db0\<lparr>arena_m := (arena_m ex_db0)\<lparr>offset_m := 4294967240\<rparr>\<rparr>)
       = None"
proof -
  have a: "size_m (arena_m ex_db0) = 64" by (simp add: arena_ex_db0)
  have "run_ops (replicate 65528 (Put [107] (replicate 65535 0))) ex_db0
       = Some (replicate 65528 ArenaFull,
               ex_db0\<lparr>arena_m := (arena_m ex_db0)\<lparr>offset_m :=
                  offset_m (arena_m ex_db0) + of_nat 65528 * needed_size [107] (replicate 65535 0)\<rparr>\<rparr>)"
    by (rule failed_puts) (simp_all add: arena_ex_db0 needed_size_max)
  then have b: "run_ops (replicate 65528 (Put [107] (replicate 65535 0))) ex_db0
       = Some (replicate 65528 ArenaFull,
               ex_db0\<lparr>arena_m := (arena_m ex_db0)\<lparr>offset_m := 4294967240\<rparr>\<rparr>)"
    by (simp add: arena_ex_db0 needed_size_max)
  have c: "needed_size [107] (replicate 47 0) = 56" by code_simp
  have d: "alloc 56 ((arena_m ex_db0)\<lparr>offset_m := 4294967240\<rparr>)
       = (Inr 4294967240, (arena_m ex_db0)\<lparr>offset_m := 0\<rparr>)"
    by code_simp
  have e: "put [107] (replicate 47 0) (ex_db0\<lparr>arena_m := (arena_m ex_db0)\<lparr>offset_m := 4294967240\<rparr>\<rparr>)
       = None"
    by code_simp
  from a b c d e show ?thesis by (intro conjI)
qed

text \<open>Claim C7. The hash of \<open>put\<close>, \<open>get\<close> and \<open>del\<close> is 32-bit FNV-1a: \<open>hash data\<close>, read as
  a number, is the value of the recurrence \<open>h := ((h XOR b) * 16777619) mod 2 ^ 32\<close> run
  over the bytes from 2166136261 (\<open>fnv1a_spec\<close>). The home bucket \<open>h AND mask\<close> is \<open>h\<close>
  modulo the capacity and it is where the probe starts: when that slot is empty, \<open>find\<close>
  returns it. The slot that a successful \<open>put\<close> publishes for the key carries as
  \<open>hash_tag\<close> the high 8 bits of the hash, \<open>hash key div 2 ^ 24\<close>, and it is the home bucket
  of the key when that bucket was empty.\<close>

theorem hash_fnv1a_tag_home:
  "unat (hash data) = fnv1a_spec (map unat data) 2166136261
   \<and> (index_ok ix \<longrightarrow>
        unat (h AND mask_m ix) = unat h mod unat (capacity_m ix)
        \<and> (is_empty (slots_m ix ! unat (h AND mask_m ix))
             \<longrightarrow> find ix h kl e = Some (h AND mask_m ix, False)))
   \<and> (wf db \<and> put key val db = Some (OK, db') \<longrightarrow>
        (\<exists>i. key_find db' key = Some (i, True)
           \<and> hash_tag (slots_m (data_m (index_m db')) ! unat i) = ucast (drop_bit 24 (hash key))
           \<and> unat (hash_tag (slots_m (data_m (index_m db')) ! unat i))
               = fnv1a_spec (map unat key) 2166136261 div 2 ^ 24
           \<and> (is_empty (slots_m (data_m (index_m db))
                   ! unat (hash key AND mask_m (data_m (index_m db))))
                \<longrightarrow> i = hash key AND mask_m (data_m (index_m db)))))"
proof (intro conjI impI)
  show fnv: "unat (hash data) = fnv1a_spec (map unat data) 2166136261" for data
    by (simp add: hash_def hash_loop_spec)
  show "unat (h AND mask_m ix) = unat h mod unat (capacity_m ix)" if "index_ok ix"
    using that by (rule home_mod)
  show "find ix h kl e = Some (h AND mask_m ix, False)"
    if "index_ok ix" "is_empty (slots_m ix ! unat (h AND mask_m ix))"
    using that by (rule find_home_empty)
  assume a: "wf db \<and> put key val db = Some (OK, db')"
  then obtain i where i: "key_find db' key = Some (i, True)"
    "hash_tag (slots_m (data_m (index_m db')) ! unat i) = ucast (drop_bit 24 (hash key))"
    "is_empty (slots_m (data_m (index_m db)) ! unat (hash key AND mask_m (data_m (index_m db))))
       \<longrightarrow> i = hash key AND mask_m (data_m (index_m db))"
    using put_OK_slot[of db key val db'] by blast
  have "unat (hash_tag (slots_m (data_m (index_m db')) ! unat i))
          = fnv1a_spec (map unat key) 2166136261 div 2 ^ 24"
    using i(2) fnv[of key] by (simp add: unat_tag)
  with i show "\<exists>i. key_find db' key = Some (i, True)
           \<and> hash_tag (slots_m (data_m (index_m db')) ! unat i) = ucast (drop_bit 24 (hash key))
           \<and> unat (hash_tag (slots_m (data_m (index_m db')) ! unat i))
               = fnv1a_spec (map unat key) 2166136261 div 2 ^ 24
           \<and> (is_empty (slots_m (data_m (index_m db))
                   ! unat (hash key AND mask_m (data_m (index_m db))))
                \<longrightarrow> i = hash key AND mask_m (data_m (index_m db)))"
    by blast
qed

theorem hash_fnv1a_tag_home_witness:
  "unat (hash [107]) = fnv1a_spec [107] 2166136261
   \<and> index_ok (data_m (index_m ex_db0))
   \<and> is_empty (slots_m (data_m (index_m ex_db0)) ! unat (hash [107] AND mask_m (data_m (index_m ex_db0))))
   \<and> find (data_m (index_m ex_db0)) (hash [107]) 1 (eq (arena_m ex_db0) [107] (hash [107]))
       = Some (hash [107] AND mask_m (data_m (index_m ex_db0)), False)
   \<and> wf ex_db0 \<and> put [107] [118] ex_db0 = Some (OK, ex_db1)
   \<and> key_find ex_db1 [107] = Some (hash [107] AND mask_m (data_m (index_m ex_db0)), True)
   \<and> unat (hash_tag (slots_m (data_m (index_m ex_db1))
         ! unat (hash [107] AND mask_m (data_m (index_m ex_db0)))))
       = fnv1a_spec [107] 2166136261 div 2 ^ 24"
proof -
  have ok: "index_ok (data_m (index_m ex_db0))" using wf_ex_db0 by (rule wf_index)
  have em: "is_empty (slots_m (data_m (index_m ex_db0))
              ! unat (hash [107] AND mask_m (data_m (index_m ex_db0))))"
    by code_simp
  note t = hash_fnv1a_tag_home[of "[107]" "data_m (index_m ex_db0)" "hash [107]" 1
      "eq (arena_m ex_db0) [107] (hash [107])" ex_db0 "[107]" "[118]" ex_db1]
  from t have a: "unat (hash [107]) = fnv1a_spec [107] 2166136261" by simp
  from t ok em have b: "find (data_m (index_m ex_db0)) (hash [107]) 1 (eq (arena_m ex_db0) [107] (hash [107]))
       = Some (hash [107] AND mask_m (data_m (index_m ex_db0)), False)" by blast
  from t[THEN conjunct2, THEN conjunct2] wf_ex_db0 put_ex_db0 em obtain i where i: "key_find ex_db1 [107] = Some (i, True)"
    "unat (hash_tag (slots_m (data_m (index_m ex_db1)) ! unat i))
       = fnv1a_spec (map unat [107 :: u8]) 2166136261 div 2 ^ 24"
    "i = hash [107] AND mask_m (data_m (index_m ex_db0))" by blast
  from i have c: "key_find ex_db1 [107] = Some (hash [107] AND mask_m (data_m (index_m ex_db0)), True)"
    and d: "unat (hash_tag (slots_m (data_m (index_m ex_db1))
         ! unat (hash [107] AND mask_m (data_m (index_m ex_db0)))))
       = fnv1a_spec [107] 2166136261 div 2 ^ 24" by simp_all
  from a ok em b wf_ex_db0 put_ex_db0 c d show ?thesis by (intro conjI)
qed

end
